theory Spec2Isabelle
  imports Complex_Main "HOL-Library.Stream"
begin

section \<open>Data model\<close>

text \<open>
  The skip list of \<^verbatim>\<open>Laisky/fast-skiplist\<close> is a pointer structure: an
  \<^verbatim>\<open>*Element\<close> is shared by the forward arrays of several levels and by the
  traversal cache, and \<^verbatim>\<open>Set\<close> and \<^verbatim>\<open>Remove\<close> mutate elements through
  such pointers. The model therefore has an explicit store: \<open>heap\<close> is the list of all
  elements allocated so far, an element pointer is \<open>Some a\<close> with \<open>a\<close> an index into
  \<open>heap\<close> (\<open>None\<close> is \<^verbatim>\<open>nil\<close>), and an allocation appends to \<open>heap\<close>. Elements are
  never freed by the code (Go is garbage collected), so a removed element stays in the
  store.

  Keys are of a linearly ordered type (Go's integer and string instances of
  \<^verbatim>\<open>Sortable\<close>); values are of an arbitrary type \<open>'v\<close> (\<^verbatim>\<open>interface{}\<close>).
  \<^verbatim>\<open>float64\<close> is modelled by \<open>real\<close>. Go's \<^verbatim>\<open>int\<close> is modelled by \<open>int\<close>: the
  only arithmetic on it is the level counter, bounded by 64, and the element count, which
  cannot reach \<open>2^63\<close> in a 64-bit address space.
\<close>

type_synonym addr = nat

text \<open>
  The panics of the Go runtime that the code can raise, and the one of the constructor.
  \<open>DanglingPointer\<close> has no counterpart in Go, where every pointer that is not nil is
  allocated: it is what the model answers when asked to read an address beyond the store.
\<close>

datatype panic =
    NilDereference
  | IndexOutOfRange
  | DanglingPointer
  | MaxLevelPanic

text \<open>\<^verbatim>\<open>type elementNode struct { next []*Element }\<close>\<close>

record elementNode =
  nxt :: "addr option list"

text \<open>\<^verbatim>\<open>type Element struct { elementNode; key T; value interface{} }\<close>\<close>

record ('k, 'v) Element = elementNode +
  key :: 'k
  val :: 'v

text \<open>
  A \<^verbatim>\<open>*elementNode\<close> that is not nil points either to the node embedded in the list
  (\<^verbatim>\<open>&list.elementNode\<close>, the header) or to the node embedded in an element
  (\<^verbatim>\<open>&next.elementNode\<close>).
\<close>

datatype nodeptr = Header | Elem addr

text \<open>
  \<^verbatim>\<open>type SkipList struct\<close>, with the store added as the field \<open>heap\<close> and the
  random source as the stream of the values its \<^verbatim>\<open>Int63()\<close> will return. The mutex
  is not modelled: every operation is taken as one atomic step. The struct declares the
  count as \<^verbatim>\<open>Length\<close> and the methods use \<^verbatim>\<open>list.length\<close>; the model has the one
  field.
\<close>

record ('k, 'v) SkipList = elementNode +
  maxLevel :: int
  Length :: int
  randSource :: "int stream"
  probability :: real
  probTable :: "real list"
  prevNodesCache :: "nodeptr option list"
  heap :: "('k, 'v) Element list"

section \<open>Memory access\<close>

definition index :: "'a list \<Rightarrow> nat \<Rightarrow> panic + 'a" where
  "index xs i = (if i < length xs then Inr (xs ! i) else Inl IndexOutOfRange)"

definition elem_at :: "('k, 'v) Element list \<Rightarrow> addr \<Rightarrow> panic + ('k, 'v) Element" where
  "elem_at h a = (if a < length h then Inr (h ! a) else Inl DanglingPointer)"

text \<open>\<^verbatim>\<open>p.next[i]\<close> for a \<^verbatim>\<open>p *elementNode\<close>.\<close>

definition load_next :: "('k, 'v) SkipList \<Rightarrow> nodeptr option \<Rightarrow> nat \<Rightarrow> panic + addr option" where
  "load_next s p i =
     (case p of
        None \<Rightarrow> Inl NilDereference
      | Some Header \<Rightarrow> index (nxt s) i
      | Some (Elem a) \<Rightarrow>
          (case elem_at (heap s) a of
             Inl e \<Rightarrow> Inl e
           | Inr el \<Rightarrow> index (nxt el) i))"

text \<open>\<^verbatim>\<open>p.next[i] = q\<close> for a \<^verbatim>\<open>p *elementNode\<close>.\<close>

definition store_next ::
  "('k, 'v) SkipList \<Rightarrow> nodeptr option \<Rightarrow> nat \<Rightarrow> addr option \<Rightarrow> panic + ('k, 'v) SkipList" where
  "store_next s p i q =
     (case p of
        None \<Rightarrow> Inl NilDereference
      | Some Header \<Rightarrow>
          if i < length (nxt s) then Inr (s\<lparr>nxt := (nxt s)[i := q]\<rparr>)
          else Inl IndexOutOfRange
      | Some (Elem a) \<Rightarrow>
          (case elem_at (heap s) a of
             Inl e \<Rightarrow> Inl e
           | Inr el \<Rightarrow>
               if i < length (nxt el)
               then Inr (s\<lparr>heap := (heap s)[a := el\<lparr>nxt := (nxt el)[i := q]\<rparr>]\<rparr>)
               else Inl IndexOutOfRange))"

section \<open>Construction and the level oracle\<close>

definition DefaultMaxLevel :: int where
  "DefaultMaxLevel = 18"

definition DefaultProbability :: real where
  "DefaultProbability = 1 / exp 1"

text \<open>
  \<^verbatim>\<open>for i := 1; i <= MaxLevel; i++ { table = append(table, math.Pow(probability, float64(i-1))) }\<close>
\<close>

definition probabilityTable :: "real \<Rightarrow> int \<Rightarrow> real list" where
  "probabilityTable p M = map (\<lambda>i. p ^ nat (i - 1)) [1..M]"

text \<open>
  The argument \<open>rs\<close> stands for the source \<^verbatim>\<open>rand.New(rand.NewSource(time.Now().UnixNano()))\<close>.
\<close>

definition NewWithMaxLevel :: "int \<Rightarrow> int stream \<Rightarrow> panic + ('k, 'v) SkipList" where
  "NewWithMaxLevel m rs =
     (if m < 1 \<or> m > 64 then Inl MaxLevelPanic
      else Inr \<lparr> nxt = replicate (nat m) None,
                 maxLevel = m,
                 Length = 0,
                 randSource = rs,
                 probability = DefaultProbability,
                 probTable = probabilityTable DefaultProbability m,
                 prevNodesCache = replicate (nat m) None,
                 heap = [] \<rparr>)"

definition New :: "int stream \<Rightarrow> panic + ('k, 'v) SkipList" where
  "New rs = NewWithMaxLevel DefaultMaxLevel rs"

definition SetProbability :: "real \<Rightarrow> ('k, 'v) SkipList \<Rightarrow> ('k, 'v) SkipList" where
  "SetProbability newProbability s =
     s\<lparr>probability := newProbability,
       probTable := probabilityTable newProbability (maxLevel s)\<rparr>"

text \<open>
  The loop of \<^verbatim>\<open>randLevel\<close>:
  \<^verbatim>\<open>for level < list.maxLevel && r < list.probTable[level] { level++ }\<close>
\<close>

function randLevel_loop :: "int \<Rightarrow> int \<Rightarrow> real list \<Rightarrow> real \<Rightarrow> panic + int" where
  "randLevel_loop level M tbl r =
     (if level < M then
        (if 0 \<le> level \<and> nat level < length tbl then
           (if r < tbl ! nat level then randLevel_loop (level + 1) M tbl r else Inr level)
         else Inl IndexOutOfRange)
      else Inr level)"
  by pat_completeness auto

termination
  by (relation "measure (\<lambda>(level, M, tbl, r). nat (M - level))") auto

declare randLevel_loop.simps [simp del]

text \<open>
  \<^verbatim>\<open>r := float64(list.randSource.Int63()) / (1 << 63)\<close>; the draw is consumed from the
  source.
\<close>

definition randLevel :: "('k, 'v) SkipList \<Rightarrow> panic + int \<times> ('k, 'v) SkipList" where
  "randLevel s =
     (let r = real_of_int (shd (randSource s)) / 2 ^ 63;
          s' = s\<lparr>randSource := stl (randSource s)\<rparr>
      in case randLevel_loop 1 (maxLevel s) (probTable s) r of
           Inl e \<Rightarrow> Inl e
         | Inr level \<Rightarrow> Inr (level, s'))"

section \<open>Traversal\<close>

text \<open>
  The horizontal loop shared, word for word, by \<^verbatim>\<open>getPrevElementNodes\<close> and
  \<^verbatim>\<open>Get\<close>:
  \<^verbatim>\<open>for next != nil && key > next.key { prev = &next.elementNode; next = next.next[i] }\<close>.
  It returns the final \<^verbatim>\<open>prev\<close> and \<^verbatim>\<open>next\<close>. On a cyclic level it would not return,
  which is the value \<open>None\<close>.
\<close>

partial_function (option) advance ::
  "('k::linorder, 'v) Element list \<Rightarrow> nat \<Rightarrow> 'k \<Rightarrow> nodeptr \<Rightarrow> addr option
     \<Rightarrow> (panic + nodeptr \<times> addr option) option" where
  "advance h i k prev nx =
     (case nx of
        None \<Rightarrow> Some (Inr (prev, None))
      | Some a \<Rightarrow>
          if a < length h then
            if k > key (h ! a) then
              (if i < length (nxt (h ! a))
               then advance h i k (Elem a) (nxt (h ! a) ! i)
               else Some (Inl IndexOutOfRange))
            else Some (Inr (prev, Some a))
          else Some (Inl DanglingPointer))"

text \<open>
  The outer loop of \<^verbatim>\<open>getPrevElementNodes\<close>,
  \<^verbatim>\<open>for i := list.maxLevel - 1; i >= 0; i--\<close>: the first argument is \<open>i + 1\<close>.
\<close>

fun getPrevElementNodes_loop ::
  "nat \<Rightarrow> 'k::linorder \<Rightarrow> ('k, 'v) SkipList \<Rightarrow> nodeptr \<Rightarrow> nodeptr option list
     \<Rightarrow> (panic + nodeptr option list) option" where
  "getPrevElementNodes_loop 0 k s prev prevs = Some (Inr prevs)"
| "getPrevElementNodes_loop (Suc i) k s prev prevs =
     (case load_next s (Some prev) i of
        Inl e \<Rightarrow> Some (Inl e)
      | Inr nx \<Rightarrow>
          (case advance (heap s) i k prev nx of
             None \<Rightarrow> None
           | Some (Inl e) \<Rightarrow> Some (Inl e)
           | Some (Inr (prev', nx')) \<Rightarrow>
               if i < length prevs
               then getPrevElementNodes_loop i k s prev' (prevs[i := Some prev'])
               else Some (Inl IndexOutOfRange)))"

text \<open>
  \<^verbatim>\<open>prevs := list.prevNodesCache\<close> shares the cache's array, so the writes
  \<^verbatim>\<open>prevs[i] = prev\<close> change the list: the function returns the slice and the list
  with its cache rewritten.
\<close>

definition getPrevElementNodes ::
  "'k::linorder \<Rightarrow> ('k, 'v) SkipList \<Rightarrow> (panic + nodeptr option list \<times> ('k, 'v) SkipList) option" where
  "getPrevElementNodes k s =
     (case getPrevElementNodes_loop (nat (maxLevel s)) k s Header (prevNodesCache s) of
        None \<Rightarrow> None
      | Some (Inl e) \<Rightarrow> Some (Inl e)
      | Some (Inr prevs) \<Rightarrow> Some (Inr (prevs, s\<lparr>prevNodesCache := prevs\<rparr>)))"

section \<open>Operations\<close>

definition Len :: "('k, 'v) SkipList \<Rightarrow> int" where
  "Len s = Length s"

definition Front :: "('k, 'v) SkipList \<Rightarrow> panic + addr option" where
  "Front s = index (nxt s) 0"

text \<open>The methods of \<^verbatim>\<open>*Element\<close>, on the store \<open>h\<close>.\<close>

definition Key :: "('k, 'v) Element list \<Rightarrow> addr option \<Rightarrow> panic + 'k" where
  "Key h e = (case e of None \<Rightarrow> Inl NilDereference
              | Some a \<Rightarrow> (case elem_at h a of Inl x \<Rightarrow> Inl x | Inr el \<Rightarrow> Inr (key el)))"

definition Value :: "('k, 'v) Element list \<Rightarrow> addr option \<Rightarrow> panic + 'v" where
  "Value h e = (case e of None \<Rightarrow> Inl NilDereference
                | Some a \<Rightarrow> (case elem_at h a of Inl x \<Rightarrow> Inl x | Inr el \<Rightarrow> Inr (val el)))"

definition Next :: "('k, 'v) Element list \<Rightarrow> addr option \<Rightarrow> panic + addr option" where
  "Next h e = (case e of None \<Rightarrow> Inl NilDereference
               | Some a \<Rightarrow> (case elem_at h a of Inl x \<Rightarrow> Inl x | Inr el \<Rightarrow> index (nxt el) 0))"

text \<open>
  The loop of \<^verbatim>\<open>Get\<close>, which keeps \<^verbatim>\<open>prev\<close> and \<^verbatim>\<open>next\<close> in local variables.
\<close>

fun Get_loop ::
  "nat \<Rightarrow> 'k::linorder \<Rightarrow> ('k, 'v) SkipList \<Rightarrow> nodeptr \<Rightarrow> addr option
     \<Rightarrow> (panic + nodeptr \<times> addr option) option" where
  "Get_loop 0 k s prev nx = Some (Inr (prev, nx))"
| "Get_loop (Suc i) k s prev nx =
     (case load_next s (Some prev) i of
        Inl e \<Rightarrow> Some (Inl e)
      | Inr nx0 \<Rightarrow>
          (case advance (heap s) i k prev nx0 of
             None \<Rightarrow> None
           | Some (Inl e) \<Rightarrow> Some (Inl e)
           | Some (Inr (prev', nx')) \<Rightarrow> Get_loop i k s prev' nx'))"

definition Get :: "'k::linorder \<Rightarrow> ('k, 'v) SkipList \<Rightarrow> (panic + addr option) option" where
  "Get k s =
     (case Get_loop (nat (maxLevel s)) k s Header None of
        None \<Rightarrow> None
      | Some (Inl e) \<Rightarrow> Some (Inl e)
      | Some (Inr (prev, nx)) \<Rightarrow>
          Some (case nx of
                  None \<Rightarrow> Inr None
                | Some a \<Rightarrow>
                    (case elem_at (heap s) a of
                       Inl e \<Rightarrow> Inl e
                     | Inr el \<Rightarrow> Inr (if key el = k then Some a else None))))"

text \<open>
  The insertion loop of \<^verbatim>\<open>Set\<close>, over the indices of \<^verbatim>\<open>element.next\<close>:
  \<^verbatim>\<open>element.next[i] = prevs[i].next[i]; prevs[i].next[i] = element\<close>.
\<close>

fun Set_link ::
  "nat list \<Rightarrow> addr \<Rightarrow> nodeptr option list \<Rightarrow> ('k, 'v) SkipList \<Rightarrow> panic + ('k, 'v) SkipList" where
  "Set_link [] a prevs s = Inr s"
| "Set_link (i # is) a prevs s =
     (case index prevs i of
        Inl e \<Rightarrow> Inl e
      | Inr p \<Rightarrow>
          (case load_next s p i of
             Inl e \<Rightarrow> Inl e
           | Inr q \<Rightarrow>
               (case store_next s (Some (Elem a)) i q of
                  Inl e \<Rightarrow> Inl e
                | Inr s' \<Rightarrow>
                    (case store_next s' p i (Some a) of
                       Inl e \<Rightarrow> Inl e
                     | Inr s'' \<Rightarrow> Set_link is a prevs s''))))"

text \<open>
  Lines 54 to 71 of \<^verbatim>\<open>Set\<close>: allocate the element with \<^verbatim>\<open>randLevel()\<close> forward
  pointers, all nil, link it, count it.
\<close>

definition Set_insert ::
  "'k \<Rightarrow> 'v \<Rightarrow> nodeptr option list \<Rightarrow> ('k, 'v) SkipList \<Rightarrow> panic + addr \<times> ('k, 'v) SkipList" where
  "Set_insert k v prevs s =
     (case randLevel s of
        Inl e \<Rightarrow> Inl e
      | Inr (level, s1) \<Rightarrow>
          (let a = length (heap s1);
               s2 = s1\<lparr>heap := heap s1 @ [\<lparr>nxt = replicate (nat level) None, key = k, val = v\<rparr>]\<rparr>
           in case Set_link [0..<nat level] a prevs s2 of
                Inl e \<Rightarrow> Inl e
              | Inr s3 \<Rightarrow> Inr (a, s3\<lparr>Length := Length s3 + 1\<rparr>)))"

text \<open>
  \<^verbatim>\<open>Set\<close>. The test is the source's \<^verbatim>\<open>element != nil && element.key <= key\<close>; the
  \<^verbatim>\<open>fmt.Println\<close> under \<^verbatim>\<open>element.key < key\<close> writes to standard output only and
  changes no state.
\<close>

definition Set ::
  "'k::linorder \<Rightarrow> 'v \<Rightarrow> ('k, 'v) SkipList \<Rightarrow> (panic + addr \<times> ('k, 'v) SkipList) option" where
  "Set k v s =
     (case getPrevElementNodes k s of
        None \<Rightarrow> None
      | Some (Inl e) \<Rightarrow> Some (Inl e)
      | Some (Inr (prevs, s1)) \<Rightarrow>
          Some (case index prevs 0 of
                  Inl e \<Rightarrow> Inl e
                | Inr p \<Rightarrow>
                    (case load_next s1 p 0 of
                       Inl e \<Rightarrow> Inl e
                     | Inr None \<Rightarrow> Set_insert k v prevs s1
                     | Inr (Some a) \<Rightarrow>
                         (case elem_at (heap s1) a of
                            Inl e \<Rightarrow> Inl e
                          | Inr el \<Rightarrow>
                              if key el \<le> k
                              then Inr (a, s1\<lparr>heap := (heap s1)[a := el\<lparr>val := v\<rparr>]\<rparr>)
                              else Set_insert k v prevs s1))))"

text \<open>
  The loop of \<^verbatim>\<open>Remove\<close>:
  \<^verbatim>\<open>for k, v := range element.next { prevs[k].next[k] = v }\<close>.
\<close>

fun Remove_unlink ::
  "nat list \<Rightarrow> addr \<Rightarrow> nodeptr option list \<Rightarrow> ('k, 'v) SkipList \<Rightarrow> panic + ('k, 'v) SkipList" where
  "Remove_unlink [] a prevs s = Inr s"
| "Remove_unlink (i # is) a prevs s =
     (case load_next s (Some (Elem a)) i of
        Inl e \<Rightarrow> Inl e
      | Inr v \<Rightarrow>
          (case index prevs i of
             Inl e \<Rightarrow> Inl e
           | Inr p \<Rightarrow>
               (case store_next s p i v of
                  Inl e \<Rightarrow> Inl e
                | Inr s' \<Rightarrow> Remove_unlink is a prevs s')))"

definition Remove ::
  "'k::linorder \<Rightarrow> ('k, 'v) SkipList \<Rightarrow> (panic + addr option \<times> ('k, 'v) SkipList) option" where
  "Remove k s =
     (case getPrevElementNodes k s of
        None \<Rightarrow> None
      | Some (Inl e) \<Rightarrow> Some (Inl e)
      | Some (Inr (prevs, s1)) \<Rightarrow>
          Some (case index prevs 0 of
                  Inl e \<Rightarrow> Inl e
                | Inr p \<Rightarrow>
                    (case load_next s1 p 0 of
                       Inl e \<Rightarrow> Inl e
                     | Inr None \<Rightarrow> Inr (None, s1)
                     | Inr (Some a) \<Rightarrow>
                         (case elem_at (heap s1) a of
                            Inl e \<Rightarrow> Inl e
                          | Inr el \<Rightarrow>
                              if key el \<le> k
                              then (case Remove_unlink [0..<length (nxt el)] a prevs s1 of
                                      Inl e \<Rightarrow> Inl e
                                    | Inr s2 \<Rightarrow> Inr (Some a, s2\<lparr>Length := Length s2 - 1\<rparr>))
                              else Inr (None, s1)))))"

section \<open>Clients: the in-order walk and sequences of calls\<close>

text \<open>
  A client's in-order walk,
  \<^verbatim>\<open>for e := list.Front(); e != nil; e = e.Next() { ... }\<close>, collecting the elements
  it visits.
\<close>

partial_function (option) walk ::
  "('k, 'v) Element list \<Rightarrow> addr option \<Rightarrow> addr list \<Rightarrow> (panic + addr list) option" where
  "walk h e acc =
     (case e of
        None \<Rightarrow> Some (Inr (rev acc))
      | Some a \<Rightarrow>
          (case Next h e of
             Inl x \<Rightarrow> Some (Inl x)
           | Inr e' \<Rightarrow> walk h e' (a # acc)))"

definition in_order :: "('k, 'v) SkipList \<Rightarrow> (panic + addr list) option" where
  "in_order s = (case Front s of Inl x \<Rightarrow> Some (Inl x) | Inr e \<Rightarrow> walk (heap s) e [])"

text \<open>Sequences of calls on one list.\<close>

datatype ('k, 'v) operation =
    OpSet 'k 'v
  | OpGet 'k
  | OpRemove 'k
  | OpFront
  | OpLen
  | OpSetProbability real

datatype outcome = RPointer "addr option" | RCount int | RDone

fun exec ::
  "('k::linorder, 'v) operation \<Rightarrow> ('k, 'v) SkipList \<Rightarrow> (panic + outcome \<times> ('k, 'v) SkipList) option" where
  "exec (OpSet k v) s =
     (case Set k v s of
        None \<Rightarrow> None
      | Some (Inl e) \<Rightarrow> Some (Inl e)
      | Some (Inr (a, s')) \<Rightarrow> Some (Inr (RPointer (Some a), s')))"
| "exec (OpGet k) s =
     (case Get k s of
        None \<Rightarrow> None
      | Some (Inl e) \<Rightarrow> Some (Inl e)
      | Some (Inr r) \<Rightarrow> Some (Inr (RPointer r, s)))"
| "exec (OpRemove k) s =
     (case Remove k s of
        None \<Rightarrow> None
      | Some (Inl e) \<Rightarrow> Some (Inl e)
      | Some (Inr (r, s')) \<Rightarrow> Some (Inr (RPointer r, s')))"
| "exec OpFront s =
     (case Front s of
        Inl e \<Rightarrow> Some (Inl e)
      | Inr r \<Rightarrow> Some (Inr (RPointer r, s)))"
| "exec OpLen s = Some (Inr (RCount (Len s), s))"
| "exec (OpSetProbability p) s = Some (Inr (RDone, SetProbability p s))"

fun run ::
  "('k::linorder, 'v) operation list \<Rightarrow> ('k, 'v) SkipList
     \<Rightarrow> (panic + outcome list \<times> ('k, 'v) SkipList) option" where
  "run [] s = Some (Inr ([], s))"
| "run (c # cs) s =
     (case exec c s of
        None \<Rightarrow> None
      | Some (Inl e) \<Rightarrow> Some (Inl e)
      | Some (Inr (r, s')) \<Rightarrow>
          (case run cs s' of
             None \<Rightarrow> None
           | Some (Inl e) \<Rightarrow> Some (Inl e)
           | Some (Inr (rs, s'')) \<Rightarrow> Some (Inr (r # rs, s''))))"

section \<open>The specification's notions\<close>

text \<open>
  The specification's view of a sequence of calls is a finite map from keys to values. A
  \<open>Set\<close> is fresh when its key is not in the map at that moment; \<open>fresh_sets\<close> counts
  the fresh ones of a sequence.
\<close>

fun spec_apply :: "('k, 'v) operation \<Rightarrow> ('k \<rightharpoonup> 'v) \<Rightarrow> ('k \<rightharpoonup> 'v)" where
  "spec_apply (OpSet k v) m = m(k \<mapsto> v)"
| "spec_apply (OpRemove k) m = m(k := None)"
| "spec_apply (OpGet k) m = m"
| "spec_apply OpFront m = m"
| "spec_apply OpLen m = m"
| "spec_apply (OpSetProbability p) m = m"

fun spec_run :: "('k, 'v) operation list \<Rightarrow> ('k \<rightharpoonup> 'v) \<Rightarrow> ('k \<rightharpoonup> 'v)" where
  "spec_run [] m = m"
| "spec_run (c # cs) m = spec_run cs (spec_apply c m)"

fun fresh_set :: "('k, 'v) operation \<Rightarrow> ('k \<rightharpoonup> 'v) \<Rightarrow> bool" where
  "fresh_set (OpSet k v) m = (m k = None)"
| "fresh_set (OpGet k) m = False"
| "fresh_set (OpRemove k) m = False"
| "fresh_set OpFront m = False"
| "fresh_set OpLen m = False"
| "fresh_set (OpSetProbability p) m = False"

fun fresh_sets :: "('k, 'v) operation list \<Rightarrow> ('k \<rightharpoonup> 'v) \<Rightarrow> nat" where
  "fresh_sets [] m = 0"
| "fresh_sets (c # cs) m = (if fresh_set c m then 1 else 0) + fresh_sets cs (spec_apply c m)"

text \<open>The successful removals of a run, read off the pointers the code returned.\<close>

fun successful_remove :: "('k, 'v) operation \<Rightarrow> outcome \<Rightarrow> bool" where
  "successful_remove (OpRemove k) (RPointer (Some a)) = True"
| "successful_remove c r = False"

fun successful_removes :: "('k, 'v) operation list \<Rightarrow> outcome list \<Rightarrow> nat" where
  "successful_removes (c # cs) (r # rs) = (if successful_remove c r then 1 else 0) + successful_removes cs rs"
| "successful_removes cs rs = 0"

text \<open>
  The number of distinct keys that a sequence of calls ever passes to \<open>Set\<close>, as the
  specification's size property words it.
\<close>

definition set_keys :: "('k, 'v) operation list \<Rightarrow> 'k list" where
  "set_keys cs = concat (map (\<lambda>c. case c of OpSet k v \<Rightarrow> [k] | _ \<Rightarrow> []) cs)"

definition distinct_set_keys :: "('k, 'v) operation list \<Rightarrow> nat" where
  "distinct_set_keys cs = length (remdups (set_keys cs))"

section \<open>Well-formed lists\<close>

text \<open>
  The height of an element is the length of its forward array. \<open>chain h i p xs\<close> says
  that following the level-\<open>i\<close> pointers from the pointer \<open>p\<close> visits exactly the
  elements \<open>xs\<close>, in this order, and then reaches nil; every element on the way is
  allocated and has more than \<open>i\<close> forward pointers. \<open>level_nodes h i ns\<close> are the
  elements of \<open>ns\<close> that are high enough for level \<open>i\<close>.
\<close>

definition height :: "('k, 'v) Element list \<Rightarrow> addr \<Rightarrow> nat" where
  "height h a = length (nxt (h ! a))"

fun chain :: "('k, 'v) Element list \<Rightarrow> nat \<Rightarrow> addr option \<Rightarrow> addr list \<Rightarrow> bool" where
  "chain h i p [] = (p = None)"
| "chain h i p (a # as) =
     (p = Some a \<and> a < length h \<and> i < length (nxt (h ! a)) \<and> chain h i (nxt (h ! a) ! i) as)"

definition level_nodes :: "('k, 'v) Element list \<Rightarrow> nat \<Rightarrow> addr list \<Rightarrow> addr list" where
  "level_nodes h i ns = filter (\<lambda>a. i < height h a) ns"

text \<open>
  The part of a list of elements with keys below \<open>k\<close> and the rest; the pointer to the
  last element of a list, or to the header for the empty list; the pointer to the first
  element, or nil.
\<close>

definition below :: "('k::linorder, 'v) Element list \<Rightarrow> 'k \<Rightarrow> addr list \<Rightarrow> addr list" where
  "below h k ns = filter (\<lambda>a. key (h ! a) < k) ns"

definition not_below :: "('k::linorder, 'v) Element list \<Rightarrow> 'k \<Rightarrow> addr list \<Rightarrow> addr list" where
  "not_below h k ns = filter (\<lambda>a. \<not> key (h ! a) < k) ns"

definition rightmost :: "addr list \<Rightarrow> nodeptr" where
  "rightmost xs = (case rev xs of [] \<Rightarrow> Header | a # _ \<Rightarrow> Elem a)"

definition first :: "addr list \<Rightarrow> addr option" where
  "first xs = (case xs of [] \<Rightarrow> None | a # _ \<Rightarrow> Some a)"

text \<open>
  The invariant. \<open>wellformed s ns\<close>: \<open>ns\<close> is the sequence of the live elements of the
  list \<open>s\<close>, in key order. The sizes are those the constructor sets up, the count is
  the length of \<open>ns\<close>, every element ever allocated has between 1 and \<open>maxLevel\<close>
  forward pointers, the keys along \<open>ns\<close> increase strictly, and at every level \<open>i\<close>
  the chain from the header is the sublist of \<open>ns\<close> of the elements high enough for
  \<open>i\<close>. The contents of the traversal cache, of the probability table and of the
  random source are not constrained.
\<close>

definition wellformed :: "('k::linorder, 'v) SkipList \<Rightarrow> addr list \<Rightarrow> bool" where
  "wellformed s ns \<longleftrightarrow>
     1 \<le> maxLevel s \<and> maxLevel s \<le> 64 \<and>
     length (nxt s) = nat (maxLevel s) \<and>
     length (prevNodesCache s) = nat (maxLevel s) \<and>
     length (probTable s) = nat (maxLevel s) \<and>
     Length s = int (length ns) \<and>
     list_all (\<lambda>e. 1 \<le> length (nxt e) \<and> length (nxt e) \<le> nat (maxLevel s)) (heap s) \<and>
     list_all (\<lambda>a. a < length (heap s)) ns \<and>
     sorted_wrt (<) (map (\<lambda>a. key (heap s ! a)) ns) \<and>
     list_all (\<lambda>i. chain (heap s) i (nxt s ! i) (level_nodes (heap s) i ns)) [0..<nat (maxLevel s)]"

text \<open>
  The predecessor of \<open>k\<close> at level \<open>i\<close>: the rightmost element of level \<open>i\<close> with a
  key below \<open>k\<close>, or the header; and the first element of level \<open>i\<close> whose key is not
  below \<open>k\<close>, or nil.
\<close>

definition pred_at :: "('k::linorder, 'v) Element list \<Rightarrow> 'k \<Rightarrow> nat \<Rightarrow> addr list \<Rightarrow> nodeptr" where
  "pred_at h k i ns = rightmost (level_nodes h i (below h k ns))"

definition succ_at :: "('k::linorder, 'v) Element list \<Rightarrow> 'k \<Rightarrow> nat \<Rightarrow> addr list \<Rightarrow> addr option" where
  "succ_at h k i ns = first (level_nodes h i (not_below h k ns))"

text \<open>
  A list with every forward pointer, of the header and of each element, overwritten by
  nil: two lists with the same skeleton differ in pointer values only.
\<close>

definition skeleton :: "('k, 'v) SkipList \<Rightarrow> ('k, 'v) SkipList" where
  "skeleton s =
     s\<lparr>nxt := replicate (length (nxt s)) None,
       heap := map (\<lambda>e. e\<lparr>nxt := replicate (length (nxt e)) None\<rparr>) (heap s)\<rparr>"

text \<open>The forward array behind a node pointer, and whether the pointer is allocated.\<close>

definition nxt_of :: "('k, 'v) SkipList \<Rightarrow> nodeptr \<Rightarrow> addr option list" where
  "nxt_of s p = (case p of Header \<Rightarrow> nxt s | Elem a \<Rightarrow> nxt (heap s ! a))"

definition valid_ptr :: "('k, 'v) SkipList \<Rightarrow> nodeptr \<Rightarrow> bool" where
  "valid_ptr s p = (case p of Header \<Rightarrow> True | Elem a \<Rightarrow> a < length (heap s))"

text \<open>The predecessors of \<open>k\<close> at all levels, as the traversal cache holds them.\<close>

definition preds :: "('k::linorder, 'v) SkipList \<Rightarrow> 'k \<Rightarrow> addr list \<Rightarrow> nodeptr option list" where
  "preds s k ns = map (\<lambda>j. Some (pred_at (heap s) k j ns)) [0..<nat (maxLevel s)]"

text \<open>
  The first element of \<open>ns\<close> with key \<open>k\<close>; the entries of \<open>ns\<close> as pairs; the finite
  map a list stands for.
\<close>

definition lookup :: "('k, 'v) Element list \<Rightarrow> 'k \<Rightarrow> addr list \<Rightarrow> addr option" where
  "lookup h k ns = find (\<lambda>a. key (h ! a) = k) ns"

definition entries :: "('k, 'v) Element list \<Rightarrow> addr list \<Rightarrow> ('k \<times> 'v) list" where
  "entries h ns = map (\<lambda>a. (key (h ! a), val (h ! a))) ns"

definition contents :: "('k, 'v) SkipList \<Rightarrow> addr list \<Rightarrow> 'k \<rightharpoonup> 'v" where
  "contents s ns = map_of (entries (heap s) ns)"


text \<open>The element that follows \<open>a\<close> in \<open>ns\<close>, or nil.\<close>

definition successor :: "addr list \<Rightarrow> addr \<Rightarrow> addr option" where
  "successor ns a = first (drop 1 (dropWhile (\<lambda>b. b \<noteq> a) ns))"




section \<open>Example lists\<close>

text \<open>
  A list of \<open>maxLevel\<close> 3 with the keys 2, 5 and 8, at the addresses 1, 0 and 2, of
  heights 1, 2 and 2.
\<close>

definition example_list :: "(int, string) SkipList" where
  "example_list =
     \<lparr> nxt = [Some 1, Some 0, None],
       maxLevel = 3,
       Length = 3,
       randSource = sconst 0,
       probability = 1 / 2,
       probTable = [1, 1 / 2, 1 / 4],
       prevNodesCache = [Some (Elem 1), Some (Elem 1), Some Header],
       heap = [\<lparr>nxt = [Some 2, Some 2], key = 5, val = ''z''\<rparr>,
               \<lparr>nxt = [Some 0], key = 2, val = ''b''\<rparr>,
               \<lparr>nxt = [None, None], key = 8, val = ''c''\<rparr>] \<rparr>"

text \<open>
  The list \<^verbatim>\<open>NewWithMaxLevel(1)\<close> returns, the calls
  \<^verbatim>\<open>Set(1, "a"); Remove(1); Set(1, "b")\<close>, the list they leave, and the list that
  \<^verbatim>\<open>Set(1, "a"); Set(2, "b")\<close> leave.
\<close>

definition fresh1 :: "(int, string) SkipList" where
  "fresh1 =
     \<lparr> nxt = [None], maxLevel = 1, Length = 0, randSource = sconst 0,
       probability = 1 / exp 1, probTable = [1], prevNodesCache = [None], heap = [] \<rparr>"

definition reinsert_ops :: "(int, string) operation list" where
  "reinsert_ops = [OpSet 1 ''a'', OpRemove 1, OpSet 1 ''b'']"

definition reinserted :: "(int, string) SkipList" where
  "reinserted =
     \<lparr> nxt = [Some 1], maxLevel = 1, Length = 1, randSource = sconst 0,
       probability = 1 / exp 1, probTable = [1], prevNodesCache = [Some Header],
       heap = [\<lparr>nxt = [None], key = 1, val = ''a''\<rparr>,
               \<lparr>nxt = [None], key = 1, val = ''b''\<rparr>] \<rparr>"

definition two_list :: "(int, string) SkipList" where
  "two_list =
     \<lparr> nxt = [Some 0], maxLevel = 1, Length = 2, randSource = sconst 0,
       probability = 1 / exp 1, probTable = [1], prevNodesCache = [Some (Elem 0)],
       heap = [\<lparr>nxt = [Some 1], key = 1, val = ''a''\<rparr>,
               \<lparr>nxt = [None], key = 2, val = ''b''\<rparr>] \<rparr>"

text \<open>
  The list \<^verbatim>\<open>NewWithMaxLevel(2)\<close> returns, and the list that the specification's
  scenario \<^verbatim>\<open>Set(5, "a"); Set(2, "b"); Set(8, "c"); Set(5, "z")\<close> leaves on it when
  the random source draws 0, so that every element gets the height 2.
\<close>

definition scenario_list :: "(int, string) SkipList" where
  "scenario_list =
     \<lparr> nxt = [Some 1, Some 1], maxLevel = 2, Length = 3, randSource = sconst 0,
       probability = 1 / exp 1, probTable = [1, 1 / exp 1],
       prevNodesCache = [Some (Elem 1), Some (Elem 1)],
       heap = [\<lparr>nxt = [Some 2, Some 2], key = 5, val = ''z''\<rparr>,
               \<lparr>nxt = [Some 0, Some 0], key = 2, val = ''b''\<rparr>,
               \<lparr>nxt = [None, None], key = 8, val = ''c''\<rparr>] \<rparr>"

definition fresh2 :: "(int, string) SkipList" where
  "fresh2 =
     \<lparr> nxt = [None, None], maxLevel = 2, Length = 0, randSource = sconst 0,
       probability = 1 / exp 1, probTable = [1, 1 / exp 1],
       prevNodesCache = [None, None], heap = [] \<rparr>"

section \<open>Lemmas\<close>

lemma rightmost_simps [simp]:
  "rightmost [] = Header" "rightmost (xs @ [a]) = Elem a"
  by (simp_all add: rightmost_def)

lemma rightmost_Cons: "rightmost (a # xs) = (if xs = [] then Elem a else rightmost xs)"
  by (cases xs rule: rev_cases) (simp_all add: rightmost_def)

lemma first_simps [simp]: "first [] = None" "first (a # xs) = Some a"
  by (simp_all add: first_def)

lemma advance_chain:
  "chain h i p (xs @ ys) \<Longrightarrow> \<forall>a\<in>set xs. key (h ! a) < k \<Longrightarrow>
   (\<forall>b\<in>set (take 1 ys). \<not> key (h ! b) < k) \<Longrightarrow>
   advance h i k prev p = Some (Inr (if xs = [] then prev else rightmost xs, first ys))"
proof (induction xs arbitrary: prev p)
  case Nil
  then show ?case
    by (cases ys) (simp_all add: advance.simps)
next
  case (Cons a xs)
  from Cons.prems have p: "p = Some a" "a < length h" "i < length (nxt (h ! a))"
    and ch: "chain h i (nxt (h ! a) ! i) (xs @ ys)" and ka: "key (h ! a) < k"
    by simp_all
  have "advance h i k (Elem a) (nxt (h ! a) ! i)
        = Some (Inr (if xs = [] then Elem a else rightmost xs, first ys))"
    using Cons.IH [OF ch] Cons.prems by simp
  then show ?case
    using p ka by (subst advance.simps) (simp add: rightmost_Cons)
qed

lemma chain_suffix:
  "chain h i p (xs @ a # ys) \<Longrightarrow>
   a < length h \<and> i < length (nxt (h ! a)) \<and> chain h i (nxt (h ! a) ! i) ys"
  by (induction xs arbitrary: p) auto

lemma sorted_split_below:
  "sorted_wrt (<) (map (\<lambda>a. key (h ! a)) ns) \<Longrightarrow> ns = below h k ns @ not_below h k ns"
proof (induction ns)
  case Nil
  then show ?case by (simp add: below_def not_below_def)
next
  case (Cons a ns)
  show ?case
  proof (cases "key (h ! a) < k")
    case True
    then show ?thesis using Cons by (simp add: below_def not_below_def)
  next
    case False
    with Cons.prems have "\<forall>b\<in>set ns. \<not> key (h ! b) < k" by auto
    then have "below h k ns = []" "not_below h k ns = ns"
      by (simp_all add: below_def not_below_def)
    then show ?thesis using False by (simp add: below_def not_below_def)
  qed
qed

lemma rightmost_append_Cons:
  "rightmost (xs @ a # zs) = (if zs = [] then Elem a else rightmost zs)"
  by (cases zs rule: rev_cases) (simp_all add: rightmost_def)

lemma wf_chain:
  "wellformed s ns \<Longrightarrow> i < nat (maxLevel s) \<Longrightarrow>
   chain (heap s) i (nxt s ! i) (level_nodes (heap s) i ns)"
  by (simp add: wellformed_def list_all_iff)

lemma wf_sorted: "wellformed s ns \<Longrightarrow> sorted_wrt (<) (map (\<lambda>a. key (heap s ! a)) ns)"
  by (simp add: wellformed_def)

lemma level_nodes_split:
  "sorted_wrt (<) (map (\<lambda>a. key (h ! a)) ns) \<Longrightarrow>
   level_nodes h i ns = level_nodes h i (below h k ns) @ level_nodes h i (not_below h k ns)"
proof -
  assume "sorted_wrt (<) (map (\<lambda>a. key (h ! a)) ns)"
  then have "ns = below h k ns @ not_below h k ns" by (rule sorted_split_below)
  then have "level_nodes h i ns = level_nodes h i (below h k ns @ not_below h k ns)" by simp
  then show ?thesis by (simp add: level_nodes_def)
qed

lemma level_step:
  assumes wf: "wellformed s ns" and i: "i < nat (maxLevel s)"
    and prev: "prev = Header \<or> (\<exists>a. prev = Elem a \<and> a \<in> set (level_nodes (heap s) i (below (heap s) k ns)))"
  shows "\<exists>nx. load_next s (Some prev) i = Inr nx \<and>
              advance (heap s) i k prev nx
                = Some (Inr (pred_at (heap s) k i ns, succ_at (heap s) k i ns))"
proof -
  let ?h = "heap s"
  let ?B = "level_nodes ?h i (below ?h k ns)"
  let ?A = "level_nodes ?h i (not_below ?h k ns)"
  have ch: "chain ?h i (nxt s ! i) (?B @ ?A)"
    using wf_chain [OF wf i] level_nodes_split [OF wf_sorted [OF wf], of i k] by simp
  have B: "\<forall>a\<in>set ?B. key (?h ! a) < k"
    by (simp add: level_nodes_def below_def)
  have A: "\<forall>b\<in>set (take 1 ?A). \<not> key (?h ! b) < k"
    by (auto simp: level_nodes_def not_below_def dest!: in_set_takeD)
  have len: "i < length (nxt s)" using wf i by (simp add: wellformed_def)
  from prev show ?thesis
  proof
    assume "prev = Header"
    then show ?thesis
      using advance_chain [OF ch B A, of Header] len
      by (simp add: load_next_def index_def pred_at_def succ_at_def)
  next
    assume "\<exists>a. prev = Elem a \<and> a \<in> set ?B"
    then obtain a where a: "prev = Elem a" "a \<in> set ?B" by blast
    then obtain xs zs where sp: "?B = xs @ a # zs" by (meson split_list)
    with ch have "chain ?h i (nxt s ! i) (xs @ a # (zs @ ?A))" by simp
    from chain_suffix [OF this]
    have fa: "a < length ?h" "i < length (nxt (?h ! a))"
      and ch': "chain ?h i (nxt (?h ! a) ! i) (zs @ ?A)" by simp_all
    have zs: "\<forall>a\<in>set zs. key (?h ! a) < k" using B sp by simp
    have "advance ?h i k (Elem a) (nxt (?h ! a) ! i)
            = Some (Inr (if zs = [] then Elem a else rightmost zs, first ?A))"
      by (rule advance_chain [OF ch' zs A])
    then show ?thesis
      using a fa sp
      by (simp add: load_next_def index_def elem_at_def pred_at_def succ_at_def
            rightmost_append_Cons)
  qed
qed

lemma pred_at_carry:
  "pred_at h k (Suc i) ns = Header \<or>
   (\<exists>a. pred_at h k (Suc i) ns = Elem a \<and> a \<in> set (level_nodes h i (below h k ns)))"
proof (cases "level_nodes h (Suc i) (below h k ns)" rule: rev_cases)
  case Nil
  then show ?thesis by (simp add: pred_at_def)
next
  case (snoc xs a)
  then have "a \<in> set (level_nodes h (Suc i) (below h k ns))" by simp
  then have "a \<in> set (level_nodes h i (below h k ns))" by (simp add: level_nodes_def)
  then show ?thesis using snoc by (simp add: pred_at_def)
qed

lemma getPrevElementNodes_loop_correct:
  assumes wf: "wellformed s ns"
  shows "n \<le> nat (maxLevel s) \<Longrightarrow> length prevs = nat (maxLevel s) \<Longrightarrow>
     (n = 0 \<or> prev = Header \<or> (\<exists>a. prev = Elem a \<and> a \<in> set (level_nodes (heap s) (n - 1) (below (heap s) k ns)))) \<Longrightarrow>
     getPrevElementNodes_loop n k s prev prevs
       = Some (Inr (map (\<lambda>j. if j < n then Some (pred_at (heap s) k j ns) else prevs ! j) [0..<length prevs]))"
proof (induction n arbitrary: prev prevs)
  case 0
  show ?case by (simp add: map_nth)
next
  case (Suc i)
  let ?h = "heap s"
  from Suc.prems have i: "i < nat (maxLevel s)" by simp
  from Suc.prems have "prev = Header \<or> (\<exists>a. prev = Elem a \<and> a \<in> set (level_nodes ?h i (below ?h k ns)))"
    by simp
  from level_step [OF wf i this] obtain nx where
    st: "load_next s (Some prev) i = Inr nx"
      "advance ?h i k prev nx = Some (Inr (pred_at ?h k i ns, succ_at ?h k i ns))"
    by blast
  let ?prevs = "prevs[i := Some (pred_at ?h k i ns)]"
  have carry: "i = 0 \<or> pred_at ?h k i ns = Header \<or>
     (\<exists>a. pred_at ?h k i ns = Elem a \<and> a \<in> set (level_nodes ?h (i - 1) (below ?h k ns)))"
    using pred_at_carry [of ?h k "i - 1" ns] by (cases i) simp_all
  have "getPrevElementNodes_loop i k s (pred_at ?h k i ns) ?prevs
     = Some (Inr (map (\<lambda>j. if j < i then Some (pred_at ?h k j ns) else ?prevs ! j) [0..<length ?prevs]))"
    using Suc.prems carry by (intro Suc.IH) simp_all
  moreover have "map (\<lambda>j. if j < i then Some (pred_at ?h k j ns) else ?prevs ! j) [0..<length ?prevs]
     = map (\<lambda>j. if j < Suc i then Some (pred_at ?h k j ns) else prevs ! j) [0..<length prevs]"
    using Suc.prems i by (auto simp: nth_list_update less_Suc_eq)
  ultimately show ?case
    using st i Suc.prems by simp
qed

lemma Get_loop_correct:
  assumes wf: "wellformed s ns"
  shows "n \<le> nat (maxLevel s) \<Longrightarrow>
     (n = 0 \<or> prev = Header \<or> (\<exists>a. prev = Elem a \<and> a \<in> set (level_nodes (heap s) (n - 1) (below (heap s) k ns)))) \<Longrightarrow>
     Get_loop n k s prev nx
       = Some (Inr (if n = 0 then (prev, nx) else (pred_at (heap s) k 0 ns, succ_at (heap s) k 0 ns)))"
proof (induction n arbitrary: prev nx)
  case 0
  then show ?case by simp
next
  case (Suc i)
  let ?h = "heap s"
  from Suc.prems have i: "i < nat (maxLevel s)" by simp
  from Suc.prems have "prev = Header \<or> (\<exists>a. prev = Elem a \<and> a \<in> set (level_nodes ?h i (below ?h k ns)))"
    by simp
  from level_step [OF wf i this] obtain nx0 where
    st: "load_next s (Some prev) i = Inr nx0"
      "advance ?h i k prev nx0 = Some (Inr (pred_at ?h k i ns, succ_at ?h k i ns))"
    by blast
  have carry: "i = 0 \<or> pred_at ?h k i ns = Header \<or>
     (\<exists>a. pred_at ?h k i ns = Elem a \<and> a \<in> set (level_nodes ?h (i - 1) (below ?h k ns)))"
    using pred_at_carry [of ?h k "i - 1" ns] by (cases i) simp_all
  have "Get_loop i k s (pred_at ?h k i ns) (succ_at ?h k i ns)
     = Some (Inr (if i = 0 then (pred_at ?h k i ns, succ_at ?h k i ns)
                  else (pred_at ?h k 0 ns, succ_at ?h k 0 ns)))"
    using Suc.prems carry by (intro Suc.IH) simp_all
  then show ?case
    using st by (cases i) simp_all
qed

lemma skeleton_fields:
  assumes "skeleton t = skeleton s"
  shows "maxLevel t = maxLevel s" "Length t = Length s" "randSource t = randSource s"
    "probability t = probability s" "probTable t = probTable s"
    "prevNodesCache t = prevNodesCache s" "length (nxt t) = length (nxt s)"
    "length (heap t) = length (heap s)"
proof -
  have "maxLevel (skeleton t) = maxLevel (skeleton s)" using assms by simp
  then show "maxLevel t = maxLevel s" by (simp add: skeleton_def)
  have "Length (skeleton t) = Length (skeleton s)" using assms by simp
  then show "Length t = Length s" by (simp add: skeleton_def)
  have "randSource (skeleton t) = randSource (skeleton s)" using assms by simp
  then show "randSource t = randSource s" by (simp add: skeleton_def)
  have "probability (skeleton t) = probability (skeleton s)" using assms by simp
  then show "probability t = probability s" by (simp add: skeleton_def)
  have "probTable (skeleton t) = probTable (skeleton s)" using assms by simp
  then show "probTable t = probTable s" by (simp add: skeleton_def)
  have "prevNodesCache (skeleton t) = prevNodesCache (skeleton s)" using assms by simp
  then show "prevNodesCache t = prevNodesCache s" by (simp add: skeleton_def)
  have "length (nxt (skeleton t)) = length (nxt (skeleton s))" using assms by simp
  then show "length (nxt t) = length (nxt s)" by (simp add: skeleton_def)
  have "length (heap (skeleton t)) = length (heap (skeleton s))" using assms by simp
  then show "length (heap t) = length (heap s)" by (simp add: skeleton_def)
qed

lemma skeleton_elem:
  assumes "skeleton t = skeleton s" "b < length (heap s)"
  shows "key (heap t ! b) = key (heap s ! b)" "val (heap t ! b) = val (heap s ! b)"
    "length (nxt (heap t ! b)) = length (nxt (heap s ! b))"
proof -
  have len: "b < length (heap t)" using assms skeleton_fields(8) by metis
  have "heap (skeleton t) ! b = heap (skeleton s) ! b" using assms by simp
  then have eq: "(heap t ! b)\<lparr>nxt := replicate (length (nxt (heap t ! b))) None\<rparr>
      = (heap s ! b)\<lparr>nxt := replicate (length (nxt (heap s ! b))) None\<rparr>"
    using assms len by (simp add: skeleton_def)
  from arg_cong [OF eq, of key] show "key (heap t ! b) = key (heap s ! b)" by simp
  from arg_cong [OF eq, of val] show "val (heap t ! b) = val (heap s ! b)" by simp
  from arg_cong [OF eq, of "\<lambda>e. length (nxt e)"]
  show "length (nxt (heap t ! b)) = length (nxt (heap s ! b))" by simp
qed

lemma nxt_of_simps [simp]:
  "nxt_of s Header = nxt s" "nxt_of s (Elem a) = nxt (heap s ! a)"
  by (simp_all add: nxt_of_def)

lemma valid_ptr_simps [simp]:
  "valid_ptr s Header" "valid_ptr s (Elem a) = (a < length (heap s))"
  by (simp_all add: valid_ptr_def)

lemma load_next_valid:
  "valid_ptr s p \<Longrightarrow> i < length (nxt_of s p) \<Longrightarrow> load_next s (Some p) i = Inr (nxt_of s p ! i)"
  by (cases p) (simp_all add: load_next_def index_def elem_at_def)

lemma store_next_valid:
  assumes "valid_ptr s p" "i < length (nxt_of s p)"
  shows "\<exists>s'. store_next s (Some p) i q = Inr s' \<and> skeleton s' = skeleton s \<and>
           (\<forall>p'. valid_ptr s p' \<longrightarrow>
              nxt_of s' p' = (if p' = p then (nxt_of s p)[i := q] else nxt_of s p'))"
proof (cases p)
  case Header
  have "\<forall>p'. nxt_of (s\<lparr>nxt := (nxt s)[i := q]\<rparr>) p' = (if p' = Header then (nxt s)[i := q] else nxt_of s p')"
    by (simp add: nxt_of_def split: nodeptr.split)
  then show ?thesis using assms Header
    by (simp add: store_next_def skeleton_def)
next
  case (Elem a)
  let ?el = "(heap s ! a)\<lparr>nxt := (nxt (heap s ! a))[i := q]\<rparr>"
  let ?s' = "s\<lparr>heap := (heap s)[a := ?el]\<rparr>"
  have a: "a < length (heap s)" "i < length (nxt (heap s ! a))" using assms Elem by simp_all
  have st: "store_next s (Some p) i q = Inr ?s'"
    using a Elem by (simp add: store_next_def elem_at_def)
  have "map (\<lambda>e. e\<lparr>nxt := replicate (length (nxt e)) None\<rparr>) ((heap s)[a := ?el])
      = map (\<lambda>e. e\<lparr>nxt := replicate (length (nxt e)) None\<rparr>) (heap s)"
    using a by (simp add: list_eq_iff_nth_eq nth_list_update)
  then have sk: "skeleton ?s' = skeleton s" by (simp add: skeleton_def)
  have "\<forall>p'. valid_ptr s p' \<longrightarrow> nxt_of ?s' p' = (if p' = p then (nxt_of s p)[i := q] else nxt_of s p')"
    using a Elem by (auto simp: nxt_of_def valid_ptr_def nth_list_update split: nodeptr.split)
  with st sk show ?thesis by blast
qed

lemma chain_cong:
  "chain h i p xs \<Longrightarrow> length h \<le> length h' \<Longrightarrow>
   \<forall>b\<in>set xs. length (nxt (h' ! b)) = length (nxt (h ! b)) \<and> nxt (h' ! b) ! i = nxt (h ! b) ! i \<Longrightarrow>
   chain h' i p xs"
  by (induction xs arbitrary: p) auto

lemma chain_replace_tail:
  "chain h i p (xs @ b # ys) \<Longrightarrow> length h \<le> length h' \<Longrightarrow>
   \<forall>c\<in>set xs. length (nxt (h' ! c)) = length (nxt (h ! c)) \<and> nxt (h' ! c) ! i = nxt (h ! c) ! i \<Longrightarrow>
   i < length (nxt (h' ! b)) \<Longrightarrow> chain h' i (nxt (h' ! b) ! i) zs \<Longrightarrow>
   chain h' i p (xs @ b # zs)"
  by (induction xs arbitrary: p) auto

lemma chain_first: "chain h i p xs \<Longrightarrow> p = first xs"
  by (cases xs) simp_all

lemma chain_valid: "chain h i p xs \<Longrightarrow> b \<in> set xs \<Longrightarrow> b < length h \<and> i < length (nxt (h ! b))"
  by (induction xs arbitrary: p) auto

lemma chain_rightmost:
  assumes "chain (heap t) i (nxt t ! i) (B @ A)" "i < length (nxt t)"
  shows "valid_ptr t (rightmost B) \<and> i < length (nxt_of t (rightmost B)) \<and>
         nxt_of t (rightmost B) ! i = first A \<and>
         chain (heap t) i (first A) A"
proof (cases B rule: rev_cases)
  case Nil
  then show ?thesis using assms chain_first [of "heap t" i "nxt t ! i" A] by simp
next
  case (snoc xs b)
  with assms have "chain (heap t) i (nxt t ! i) (xs @ b # A)" by simp
  from chain_suffix [OF this] chain_first [of "heap t" i "nxt (heap t ! b) ! i" A]
  show ?thesis using snoc by simp
qed

lemma rightmost_cases:
  "rightmost B = Header \<and> B = [] \<or> (\<exists>xs b. rightmost B = Elem b \<and> B = xs @ [b])"
  by (cases B rule: rev_cases) simp_all

lemma insert_level:
  assumes ch: "chain (heap t) i (nxt t ! i) (B @ A)" and dist: "distinct (B @ A)"
    and a: "a < length (heap t)" "a \<notin> set (B @ A)" "i < length (nxt (heap t ! a))"
    and i: "i < length (nxt t)"
  shows "\<exists>q t1 t2. load_next t (Some (rightmost B)) i = Inr q \<and>
           store_next t (Some (Elem a)) i q = Inr t1 \<and>
           store_next t1 (Some (rightmost B)) i (Some a) = Inr t2 \<and>
           skeleton t2 = skeleton t \<and>
           chain (heap t2) i (nxt t2 ! i) (B @ a # A) \<and>
           (\<forall>j p. j \<noteq> i \<longrightarrow> valid_ptr t p \<longrightarrow> nxt_of t2 p ! j = nxt_of t p ! j)"
proof -
  let ?P = "rightmost B"
  let ?q = "first A"
  from chain_rightmost [OF ch i]
  have P: "valid_ptr t ?P" "i < length (nxt_of t ?P)" "nxt_of t ?P ! i = ?q"
    and chA: "chain (heap t) i ?q A" by simp_all
  have ld: "load_next t (Some ?P) i = Inr ?q"
    using load_next_valid [OF P(1,2)] P(3) by simp
  have Pa: "?P \<noteq> Elem a" using a(2) rightmost_cases [of B] by auto
  from store_next_valid [of t "Elem a" i ?q] a obtain t1 where
    t1: "store_next t (Some (Elem a)) i ?q = Inr t1" "skeleton t1 = skeleton t"
      "\<forall>p'. valid_ptr t p' \<longrightarrow>
         nxt_of t1 p' = (if p' = Elem a then (nxt_of t (Elem a))[i := ?q] else nxt_of t p')"
    by auto
  have len1: "length (heap t1) = length (heap t)" using skeleton_fields(8) [OF t1(2)] .
  have P1: "valid_ptr t1 ?P" "i < length (nxt_of t1 ?P)"
    using P Pa t1(3) len1 by (auto simp: valid_ptr_def split: nodeptr.splits)
  from store_next_valid [OF P1, of "Some a"] obtain t2 where
    t2: "store_next t1 (Some ?P) i (Some a) = Inr t2" "skeleton t2 = skeleton t1"
      "\<forall>p'. valid_ptr t1 p' \<longrightarrow>
         nxt_of t2 p' = (if p' = ?P then (nxt_of t1 ?P)[i := Some a] else nxt_of t1 p')"
    by auto
  have len2: "length (heap t2) = length (heap t)" using skeleton_fields(8) [OF t2(2)] len1 by simp
  have v1: "valid_ptr t1 p = valid_ptr t p" for p using len1 by (cases p) simp_all
  have all: "\<And>p. valid_ptr t p \<Longrightarrow> nxt_of t2 p =
      (if p = ?P then (nxt_of t ?P)[i := Some a]
       else if p = Elem a then (nxt_of t (Elem a))[i := ?q] else nxt_of t p)"
    using t1(3) t2(3) v1 P(1) Pa by simp
  have frame: "\<forall>j p. j \<noteq> i \<longrightarrow> valid_ptr t p \<longrightarrow> nxt_of t2 p ! j = nxt_of t p ! j"
    using all by simp
  have a2: "nxt (heap t2 ! a) = (nxt (heap t ! a))[i := ?q]"
    using all [of "Elem a"] a(1) Pa by simp
  have other: "nxt (heap t2 ! c) = nxt (heap t ! c)"
    if "c < length (heap t)" "c \<noteq> a" "Elem c \<noteq> ?P" for c
    using all [of "Elem c"] that by simp
  have chA2: "chain (heap t2) i ?q A"
  proof (rule chain_cong [OF chA])
    show "length (heap t) \<le> length (heap t2)" using len2 by simp
    show "\<forall>b\<in>set A. length (nxt (heap t2 ! b)) = length (nxt (heap t ! b)) \<and>
        nxt (heap t2 ! b) ! i = nxt (heap t ! b) ! i"
    proof
      fix b assume b: "b \<in> set A"
      then have "b < length (heap t)" using chain_valid [OF chA] by blast
      moreover have "b \<noteq> a" using a(2) b by auto
      moreover have "Elem b \<noteq> ?P" using dist b rightmost_cases [of B] by auto
      ultimately show "length (nxt (heap t2 ! b)) = length (nxt (heap t ! b)) \<and>
        nxt (heap t2 ! b) ! i = nxt (heap t ! b) ! i" using other by simp
    qed
  qed
  have cha: "chain (heap t2) i (Some a) (a # A)"
    using a a2 len2 chA2 by simp
  have "chain (heap t2) i (nxt t2 ! i) (B @ a # A)"
    using rightmost_cases [of B]
  proof (elim disjE conjE exE)
    assume B: "rightmost B = Header" "B = []"
    then have "nxt t2 = (nxt t)[i := Some a]" using all [of Header] by simp
    then show ?thesis using B cha i by simp
  next
    fix xs b assume B: "rightmost B = Elem b" "B = xs @ [b]"
    then have b: "b < length (heap t)" using P(1) by simp
    have hd: "nxt t2 = nxt t" using all [of Header] B by simp
    have b2: "nxt (heap t2 ! b) = (nxt (heap t ! b))[i := Some a]"
      using all [of "Elem b"] B b by simp
    have ch0: "chain (heap t) i (nxt t ! i) (xs @ b # A)" using ch B by simp
    have "chain (heap t2) i (nxt t ! i) (xs @ b # (a # A))"
    proof (rule chain_replace_tail [OF ch0])
      show "length (heap t) \<le> length (heap t2)" using len2 by simp
      show "\<forall>c\<in>set xs. length (nxt (heap t2 ! c)) = length (nxt (heap t ! c)) \<and>
          nxt (heap t2 ! c) ! i = nxt (heap t ! c) ! i"
      proof
        fix c assume c: "c \<in> set xs"
        then have "c < length (heap t)" using chain_valid [OF ch0] by simp
        moreover have "c \<noteq> a" using a(2) c B by auto
        moreover have "Elem c \<noteq> ?P" using dist c B by auto
        ultimately show "length (nxt (heap t2 ! c)) = length (nxt (heap t ! c)) \<and>
          nxt (heap t2 ! c) ! i = nxt (heap t ! c) ! i" using other by simp
      qed
      show "i < length (nxt (heap t2 ! b))" using b2 P(2) B by simp
      show "chain (heap t2) i (nxt (heap t2 ! b) ! i) (a # A)"
        using b2 P(2) B cha by simp
    qed
    then show ?thesis using B hd by simp
  qed
  with ld t1(1) t2(1) t2(2) t1(2) frame show ?thesis by auto
qed

lemma remove_level:
  assumes ch: "chain (heap t) i (nxt t ! i) (B @ a # A)" and dist: "distinct (B @ a # A)"
    and i: "i < length (nxt t)"
  shows "\<exists>v t1. load_next t (Some (Elem a)) i = Inr v \<and>
           store_next t (Some (rightmost B)) i v = Inr t1 \<and>
           skeleton t1 = skeleton t \<and>
           chain (heap t1) i (nxt t1 ! i) (B @ A) \<and>
           (\<forall>p. valid_ptr t p \<longrightarrow>
              nxt_of t1 p = (if p = rightmost B then (nxt_of t p)[i := v] else nxt_of t p))"
proof -
  let ?P = "rightmost B"
  let ?v = "nxt (heap t ! a) ! i"
  from chain_suffix [OF ch]
  have a: "a < length (heap t)" "i < length (nxt (heap t ! a))"
    and chA: "chain (heap t) i ?v A" by simp_all
  from chain_rightmost [OF ch i]
  have P: "valid_ptr t ?P" "i < length (nxt_of t ?P)" by simp_all
  have ld: "load_next t (Some (Elem a)) i = Inr ?v"
    using load_next_valid [of t "Elem a" i] a by simp
  from store_next_valid [OF P, of ?v] obtain t1 where
    t1: "store_next t (Some ?P) i ?v = Inr t1" "skeleton t1 = skeleton t"
      "\<forall>p'. valid_ptr t p' \<longrightarrow>
         nxt_of t1 p' = (if p' = ?P then (nxt_of t ?P)[i := ?v] else nxt_of t p')"
    by auto
  have len1: "length (heap t1) = length (heap t)" using skeleton_fields(8) [OF t1(2)] .
  have other: "nxt (heap t1 ! c) = nxt (heap t ! c)"
    if "c < length (heap t)" "Elem c \<noteq> ?P" for c
    using spec [OF t1(3), of "Elem c"] that by simp
  have chA1: "chain (heap t1) i ?v A"
  proof (rule chain_cong [OF chA])
    show "length (heap t) \<le> length (heap t1)" using len1 by simp
    show "\<forall>b\<in>set A. length (nxt (heap t1 ! b)) = length (nxt (heap t ! b)) \<and>
        nxt (heap t1 ! b) ! i = nxt (heap t ! b) ! i"
    proof
      fix b assume b: "b \<in> set A"
      then have "b < length (heap t)" using chain_valid [OF chA] by blast
      moreover have "Elem b \<noteq> ?P" using dist b rightmost_cases [of B] by auto
      ultimately show "length (nxt (heap t1 ! b)) = length (nxt (heap t ! b)) \<and>
        nxt (heap t1 ! b) ! i = nxt (heap t ! b) ! i" using other by simp
    qed
  qed
  have "chain (heap t1) i (nxt t1 ! i) (B @ A)"
    using rightmost_cases [of B]
  proof (elim disjE conjE exE)
    assume B: "rightmost B = Header" "B = []"
    then have "nxt t1 = (nxt t)[i := ?v]" using spec [OF t1(3), of Header] by simp
    then show ?thesis using B chA1 i by simp
  next
    fix xs b assume B: "rightmost B = Elem b" "B = xs @ [b]"
    then have b: "b < length (heap t)" using P(1) by simp
    have hd: "nxt t1 = nxt t" using spec [OF t1(3), of Header] B by simp
    have b1: "nxt (heap t1 ! b) = (nxt (heap t ! b))[i := ?v]"
      using spec [OF t1(3), of "Elem b"] B b by simp
    have ch0: "chain (heap t) i (nxt t ! i) (xs @ b # (a # A))" using ch B by simp
    have "chain (heap t1) i (nxt t ! i) (xs @ b # A)"
    proof (rule chain_replace_tail [OF ch0])
      show "length (heap t) \<le> length (heap t1)" using len1 by simp
      show "\<forall>c\<in>set xs. length (nxt (heap t1 ! c)) = length (nxt (heap t ! c)) \<and>
          nxt (heap t1 ! c) ! i = nxt (heap t ! c) ! i"
      proof
        fix c assume c: "c \<in> set xs"
        then have "c < length (heap t)" using chain_valid [OF ch0] by simp
        moreover have "Elem c \<noteq> ?P" using dist c B by auto
        ultimately show "length (nxt (heap t1 ! c)) = length (nxt (heap t ! c)) \<and>
          nxt (heap t1 ! c) ! i = nxt (heap t ! c) ! i" using other by simp
      qed
      show "i < length (nxt (heap t1 ! b))" using b1 P(2) B by simp
      show "chain (heap t1) i (nxt (heap t1 ! b) ! i) A"
        using b1 P(2) B chA1 by simp
    qed
    then show ?thesis using B hd by simp
  qed
  with ld t1 show ?thesis by auto
qed

lemma chain_frame:
  assumes ch: "chain (heap t) j p xs" and sk: "skeleton t' = skeleton t"
    and fr: "\<forall>b. b < length (heap t) \<longrightarrow> nxt (heap t' ! b) ! j = nxt (heap t ! b) ! j"
  shows "chain (heap t') j p xs"
proof (rule chain_cong [OF ch])
  show "length (heap t) \<le> length (heap t')" using skeleton_fields(8) [OF sk] by simp
  show "\<forall>b\<in>set xs. length (nxt (heap t' ! b)) = length (nxt (heap t ! b)) \<and>
      nxt (heap t' ! b) ! j = nxt (heap t ! b) ! j"
  proof
    fix b assume "b \<in> set xs"
    then have "b < length (heap t)" using chain_valid [OF ch] by blast
    then show "length (nxt (heap t' ! b)) = length (nxt (heap t ! b)) \<and>
      nxt (heap t' ! b) ! j = nxt (heap t ! b) ! j"
      using skeleton_elem(3) [OF sk] fr by simp
  qed
qed

lemma Set_link_correct:
  assumes dist: "\<forall>j<L. distinct (B j @ A j) \<and> a \<notin> set (B j @ A j)"
    and prevs: "\<forall>j<L. j < length prevs \<and> prevs ! j = Some (rightmost (B j))"
  shows "m \<le> L \<Longrightarrow> L \<le> length (nxt t) \<Longrightarrow> a < length (heap t) \<Longrightarrow>
    length (nxt (heap t ! a)) = L \<Longrightarrow>
    \<forall>j<length (nxt t). chain (heap t) j (nxt t ! j) (if j < m then B j @ a # A j else B j @ A j) \<Longrightarrow>
    \<exists>t'. Set_link [m..<L] a prevs t = Inr t' \<and> skeleton t' = skeleton t \<and>
      (\<forall>j<length (nxt t). chain (heap t') j (nxt t' ! j) (if j < L then B j @ a # A j else B j @ A j))"
proof (induction "L - m" arbitrary: m t)
  case 0
  then have "m = L" by simp
  then show ?case using 0 by simp
next
  case (Suc d)
  then have m: "m < L" by simp
  then have up: "[m..<L] = m # [Suc m..<L]" by (simp add: upt_conv_Cons)
  have mi: "m < length (nxt t)" using m Suc.prems by simp
  have chm: "chain (heap t) m (nxt t ! m) (B m @ A m)"
    using Suc.prems(5) [rule_format, of m] mi by simp
  have dm: "distinct (B m @ A m)" "a \<notin> set (B m @ A m)" using dist m by simp_all
  have am: "m < length (nxt (heap t ! a))" using Suc.prems m by simp
  from insert_level [OF chm dm(1) Suc.prems(3) dm(2) am mi]
  obtain q t1 t2 where
    st: "load_next t (Some (rightmost (B m))) m = Inr q"
        "store_next t (Some (Elem a)) m q = Inr t1"
        "store_next t1 (Some (rightmost (B m))) m (Some a) = Inr t2"
    and sk: "skeleton t2 = skeleton t"
    and ch2: "chain (heap t2) m (nxt t2 ! m) (B m @ a # A m)"
    and fr: "\<forall>j p. j \<noteq> m \<longrightarrow> valid_ptr t p \<longrightarrow> nxt_of t2 p ! j = nxt_of t p ! j"
    by blast
  have len2: "length (nxt t2) = length (nxt t)" "length (heap t2) = length (heap t)"
    using skeleton_fields(7,8) [OF sk] by simp_all
  have chains: "\<forall>j<length (nxt t2).
      chain (heap t2) j (nxt t2 ! j) (if j < Suc m then B j @ a # A j else B j @ A j)"
  proof (intro allI impI)
    fix j assume j: "j < length (nxt t2)"
    show "chain (heap t2) j (nxt t2 ! j) (if j < Suc m then B j @ a # A j else B j @ A j)"
    proof (cases "j = m")
      case True
      then show ?thesis using ch2 by simp
    next
      case False
      have hd: "nxt t2 ! j = nxt t ! j" using fr [rule_format, of j Header] False by simp
      have "\<forall>b. b < length (heap t) \<longrightarrow> nxt (heap t2 ! b) ! j = nxt (heap t ! b) ! j"
      proof (intro allI impI)
        fix b assume "b < length (heap t)"
        then have "valid_ptr t (Elem b)" by simp
        with fr False have "nxt_of t2 (Elem b) ! j = nxt_of t (Elem b) ! j" by blast
        then show "nxt (heap t2 ! b) ! j = nxt (heap t ! b) ! j" by simp
      qed
      from chain_frame [OF _ sk this, of "nxt t ! j" "if j < m then B j @ a # A j else B j @ A j"]
      show ?thesis using Suc.prems(5) j len2 hd False by (simp add: less_Suc_eq)
    qed
  qed
  have "\<exists>t'. Set_link [Suc m..<L] a prevs t2 = Inr t' \<and> skeleton t' = skeleton t2 \<and>
      (\<forall>j<length (nxt t2). chain (heap t') j (nxt t' ! j) (if j < L then B j @ a # A j else B j @ A j))"
  proof (rule Suc.hyps(1))
    show "d = L - Suc m" using Suc.hyps(2) by simp
    show "Suc m \<le> L" using m by simp
    show "L \<le> length (nxt t2)" using Suc.prems len2 by simp
    show "a < length (heap t2)" using Suc.prems len2 by simp
    show "length (nxt (heap t2 ! a)) = L"
      using skeleton_elem(3) [OF sk Suc.prems(3)] Suc.prems(4) by simp
    show "\<forall>j<length (nxt t2).
      chain (heap t2) j (nxt t2 ! j) (if j < Suc m then B j @ a # A j else B j @ A j)"
      by (rule chains)
  qed
  then obtain t' where t': "Set_link [Suc m..<L] a prevs t2 = Inr t'" "skeleton t' = skeleton t2"
    "\<forall>j<length (nxt t2). chain (heap t') j (nxt t' ! j) (if j < L then B j @ a # A j else B j @ A j)"
    by blast
  have "Set_link [m..<L] a prevs t = Inr t'"
    using up st t'(1) prevs m by (simp add: index_def)
  then show ?case using t' sk len2 by simp
qed

lemma Remove_unlink_correct:
  assumes dist: "\<forall>j<H. distinct (B j @ a # A j)"
    and prevs: "\<forall>j<H. j < length prevs \<and> prevs ! j = Some (rightmost (B j))"
  shows "m \<le> H \<Longrightarrow> H \<le> length (nxt t) \<Longrightarrow>
    \<forall>j<length (nxt t). chain (heap t) j (nxt t ! j)
        (if m \<le> j \<and> j < H then B j @ a # A j else B j @ A j) \<Longrightarrow>
    \<exists>t'. Remove_unlink [m..<H] a prevs t = Inr t' \<and> skeleton t' = skeleton t \<and>
      (\<forall>j<length (nxt t). chain (heap t') j (nxt t' ! j) (B j @ A j)) \<and>
      (\<forall>p j. valid_ptr t p \<longrightarrow> \<not> (m \<le> j \<and> j < H \<and> p = rightmost (B j)) \<longrightarrow>
           (nxt_of t' p) ! j = (nxt_of t p) ! j)"
proof (induction "H - m" arbitrary: m t)
  case 0
  then have "m = H" by simp
  have "\<forall>j<length (nxt t). chain (heap t) j (nxt t ! j) (B j @ A j)"
  proof (intro allI impI)
    fix j assume "j < length (nxt t)"
    from 0(4) [rule_format, OF this] show "chain (heap t) j (nxt t ! j) (B j @ A j)"
      using \<open>m = H\<close> by (simp split: if_splits)
  qed
  then show ?case using \<open>m = H\<close> by simp
next
  case (Suc d)
  then have m: "m < H" by simp
  then have up: "[m..<H] = m # [Suc m..<H]" by (simp add: upt_conv_Cons)
  have mi: "m < length (nxt t)" using m Suc.prems by simp
  have chm: "chain (heap t) m (nxt t ! m) (B m @ a # A m)"
    using Suc.prems(3) [rule_format, of m] mi m by simp
  have dm: "distinct (B m @ a # A m)" using dist m by simp
  from remove_level [OF chm dm mi]
  obtain v t1 where
    st: "load_next t (Some (Elem a)) m = Inr v"
        "store_next t (Some (rightmost (B m))) m v = Inr t1"
    and sk: "skeleton t1 = skeleton t"
    and ch1: "chain (heap t1) m (nxt t1 ! m) (B m @ A m)"
    and fr: "\<forall>p. valid_ptr t p \<longrightarrow>
              nxt_of t1 p = (if p = rightmost (B m) then (nxt_of t p)[m := v] else nxt_of t p)"
    by blast
  have len1: "length (nxt t1) = length (nxt t)" "length (heap t1) = length (heap t)"
    using skeleton_fields(7,8) [OF sk] by simp_all
  have fr': "nxt_of t1 p ! j = nxt_of t p ! j"
    if "valid_ptr t p" "\<not> (j = m \<and> p = rightmost (B m))" for p j
    using spec [OF fr, of p] that by auto
  have chains: "\<forall>j<length (nxt t1).
      chain (heap t1) j (nxt t1 ! j) (if Suc m \<le> j \<and> j < H then B j @ a # A j else B j @ A j)"
  proof (intro allI impI)
    fix j assume j: "j < length (nxt t1)"
    show "chain (heap t1) j (nxt t1 ! j) (if Suc m \<le> j \<and> j < H then B j @ a # A j else B j @ A j)"
    proof (cases "j = m")
      case True
      then show ?thesis using ch1 by simp
    next
      case False
      have hd: "nxt t1 ! j = nxt t ! j" using fr' [of Header j] False by simp
      have "\<forall>b. b < length (heap t) \<longrightarrow> nxt (heap t1 ! b) ! j = nxt (heap t ! b) ! j"
        using fr' [of "Elem _" j] False by simp
      from chain_frame [OF _ sk this, of "nxt t ! j"
          "if m \<le> j \<and> j < H then B j @ a # A j else B j @ A j"]
      show ?thesis using Suc.prems(3) j len1 hd False by (auto simp: Suc_le_eq)
    qed
  qed
  have "\<exists>t'. Remove_unlink [Suc m..<H] a prevs t1 = Inr t' \<and> skeleton t' = skeleton t1 \<and>
      (\<forall>j<length (nxt t1). chain (heap t') j (nxt t' ! j) (B j @ A j)) \<and>
      (\<forall>p j. valid_ptr t1 p \<longrightarrow> \<not> (Suc m \<le> j \<and> j < H \<and> p = rightmost (B j)) \<longrightarrow>
           (nxt_of t' p) ! j = (nxt_of t1 p) ! j)"
  proof (rule Suc.hyps(1))
    show "d = H - Suc m" using Suc.hyps(2) by simp
    show "Suc m \<le> H" using m by simp
    show "H \<le> length (nxt t1)" using Suc.prems len1 by simp
    show "\<forall>j<length (nxt t1).
      chain (heap t1) j (nxt t1 ! j) (if Suc m \<le> j \<and> j < H then B j @ a # A j else B j @ A j)"
      by (rule chains)
  qed
  then obtain t' where t': "Remove_unlink [Suc m..<H] a prevs t1 = Inr t'" "skeleton t' = skeleton t1"
    "\<forall>j<length (nxt t1). chain (heap t') j (nxt t' ! j) (B j @ A j)"
    "\<forall>p j. valid_ptr t1 p \<longrightarrow> \<not> (Suc m \<le> j \<and> j < H \<and> p = rightmost (B j)) \<longrightarrow>
           (nxt_of t' p) ! j = (nxt_of t1 p) ! j"
    by blast
  have run: "Remove_unlink [m..<H] a prevs t = Inr t'"
    using up st t'(1) prevs m by (simp add: index_def)
  have v1: "valid_ptr t1 p = valid_ptr t p" for p using len1 by (cases p) simp_all
  have "nxt_of t' p ! j = nxt_of t p ! j"
    if "valid_ptr t p" "\<not> (m \<le> j \<and> j < H \<and> p = rightmost (B j))" for p j
  proof -
    have "nxt_of t' p ! j = nxt_of t1 p ! j" using t'(4) that v1 by auto
    moreover have "nxt_of t1 p ! j = nxt_of t p ! j" using fr' [of p j] that m by auto
    ultimately show ?thesis by simp
  qed
  then show ?case using run t'(2,3) sk len1 by auto
qed

lemma wf_fields:
  assumes "wellformed s ns"
  shows "1 \<le> maxLevel s" "maxLevel s \<le> 64" "length (nxt s) = nat (maxLevel s)"
    "length (prevNodesCache s) = nat (maxLevel s)" "length (probTable s) = nat (maxLevel s)"
    "Length s = int (length ns)"
  using assms by (simp_all add: wellformed_def)

lemma wf_heights:
  "wellformed s ns \<Longrightarrow> b < length (heap s) \<Longrightarrow>
   1 \<le> length (nxt (heap s ! b)) \<and> length (nxt (heap s ! b)) \<le> nat (maxLevel s)"
  by (simp add: wellformed_def list_all_length)

lemma wf_valid: "wellformed s ns \<Longrightarrow> b \<in> set ns \<Longrightarrow> b < length (heap s)"
  by (simp add: wellformed_def list_all_iff)

lemma sorted_keys_distinct:
  "sorted_wrt (<) (map (\<lambda>a. key (h ! a)) (ns :: addr list)) \<Longrightarrow> distinct ns"
  for h :: "('k::linorder, 'v) Element list"
  by (induction ns) auto

lemma wf_distinct: "wellformed s ns \<Longrightarrow> distinct ns"
  using sorted_keys_distinct wf_sorted by blast

lemma level0:
  assumes "wellformed s ns" "set xs \<subseteq> set ns"
  shows "level_nodes (heap s) 0 xs = xs"
proof -
  have "\<forall>b\<in>set xs. 0 < height (heap s) b"
    using assms wf_valid [OF assms(1)] wf_heights [OF assms(1)] by (fastforce simp: height_def)
  then show ?thesis by (simp add: level_nodes_def)
qed

lemma below_subset [simp]: "set (below h k ns) \<subseteq> set ns" "set (not_below h k ns) \<subseteq> set ns"
  by (auto simp: below_def not_below_def)

lemma pred0: "wellformed s ns \<Longrightarrow> pred_at (heap s) k 0 ns = rightmost (below (heap s) k ns)"
  by (simp add: pred_at_def level0)

lemma succ0: "wellformed s ns \<Longrightarrow> succ_at (heap s) k 0 ns = first (not_below (heap s) k ns)"
  by (simp add: succ_at_def level0)

lemma getPrevElementNodes_correct:
  assumes wf: "wellformed s ns"
  shows "getPrevElementNodes k s = Some (Inr (preds s k ns, s\<lparr>prevNodesCache := preds s k ns\<rparr>))"
proof -
  let ?M = "nat (maxLevel s)"
  have "getPrevElementNodes_loop ?M k s Header (prevNodesCache s)
     = Some (Inr (map (\<lambda>j. if j < ?M then Some (pred_at (heap s) k j ns) else prevNodesCache s ! j)
                    [0..<length (prevNodesCache s)]))"
    using wf_fields(4) [OF wf] by (intro getPrevElementNodes_loop_correct [OF wf]) simp_all
  also have "map (\<lambda>j. if j < ?M then Some (pred_at (heap s) k j ns) else prevNodesCache s ! j)
                    [0..<length (prevNodesCache s)] = preds s k ns"
    using wf_fields(4) [OF wf] by (simp add: preds_def)
  finally show ?thesis by (simp add: getPrevElementNodes_def)
qed

lemma load_pred:
  assumes wf: "wellformed s ns" and i: "i < nat (maxLevel s)"
  shows "load_next s (Some (pred_at (heap s) k i ns)) i = Inr (succ_at (heap s) k i ns)"
proof -
  let ?h = "heap s"
  have ch: "chain ?h i (nxt s ! i) (level_nodes ?h i (below ?h k ns) @ level_nodes ?h i (not_below ?h k ns))"
    using wf_chain [OF wf i] level_nodes_split [OF wf_sorted [OF wf], of i k] by simp
  have len: "i < length (nxt s)" using wf_fields(3) [OF wf] i by simp
  from chain_rightmost [OF ch len] show ?thesis
    using load_next_valid [of s "pred_at ?h k i ns" i] by (simp add: pred_at_def succ_at_def)
qed

lemma lookup_not_below:
  "sorted_wrt (<) (map (\<lambda>a. key (h ! a)) ns) \<Longrightarrow>
   lookup h k ns = (case first (not_below h k ns) of None \<Rightarrow> None
                    | Some a \<Rightarrow> if key (h ! a) = k then Some a else None)"
proof (induction ns)
  case Nil
  then show ?case by (simp add: lookup_def not_below_def)
next
  case (Cons a ns)
  show ?case
  proof (cases "key (h ! a) < k")
    case True
    then have "key (h ! a) \<noteq> k" by simp
    then show ?thesis using Cons True by (simp add: lookup_def not_below_def)
  next
    case False
    with Cons.prems have "\<forall>b\<in>set ns. key (h ! b) \<noteq> k" by auto
    then have "find (\<lambda>a. key (h ! a) = k) ns = None" by (simp add: find_None_iff)
    then show ?thesis using False by (simp add: lookup_def not_below_def)
  qed
qed

lemma first_not_below_valid:
  "wellformed s ns \<Longrightarrow> first (not_below (heap s) k ns) = Some a \<Longrightarrow>
   a \<in> set ns \<and> a < length (heap s) \<and> \<not> key (heap s ! a) < k"
proof -
  assume wf: "wellformed s ns" and f: "first (not_below (heap s) k ns) = Some a"
  then have "a \<in> set (not_below (heap s) k ns)"
    by (cases "not_below (heap s) k ns") simp_all
  then have "a \<in> set ns \<and> \<not> key (heap s ! a) < k" by (simp add: not_below_def)
  then show ?thesis using wf_valid [OF wf] by simp
qed

lemma Get_correct:
  assumes wf: "wellformed s ns"
  shows "Get k s = Some (Inr (lookup (heap s) k ns))"
proof -
  have M: "nat (maxLevel s) \<noteq> 0" using wf_fields(1) [OF wf] by simp
  have "Get_loop (nat (maxLevel s)) k s Header None
      = Some (Inr (pred_at (heap s) k 0 ns, succ_at (heap s) k 0 ns))"
    using Get_loop_correct [OF wf, of "nat (maxLevel s)" Header k None] M by simp
  then show ?thesis
    using first_not_below_valid [OF wf, of k]
    by (simp add: Get_def succ0 [OF wf] lookup_not_below [OF wf_sorted [OF wf]] elem_at_def
          split: option.split)
qed

lemma randLevel_loop_bounds:
  "1 \<le> level \<Longrightarrow> level \<le> M \<Longrightarrow> length tbl = nat M \<Longrightarrow>
   \<exists>l. randLevel_loop level M tbl r = Inr l \<and> level \<le> l \<and> l \<le> M"
proof (induction level M tbl r rule: randLevel_loop.induct)
  case (1 level M tbl r)
  show ?case
  proof (cases "level < M \<and> r < tbl ! nat level")
    case True
    then have "\<exists>l. randLevel_loop (level + 1) M tbl r = Inr l \<and> level + 1 \<le> l \<and> l \<le> M"
      using 1 by (intro "1.IH") simp_all
    then show ?thesis using True 1 by (subst randLevel_loop.simps) auto
  next
    case False
    then show ?thesis using 1 by (subst randLevel_loop.simps) auto
  qed
qed

lemma randLevel_bounds:
  assumes "1 \<le> maxLevel s" "length (probTable s) = nat (maxLevel s)"
  shows "\<exists>l. randLevel s = Inr (l, s\<lparr>randSource := stl (randSource s)\<rparr>) \<and>
             1 \<le> l \<and> l \<le> maxLevel s"
proof -
  from randLevel_loop_bounds [of 1 "maxLevel s" "probTable s"
      "real_of_int (shd (randSource s)) / 2 ^ 63"] assms
  obtain l where "randLevel_loop 1 (maxLevel s) (probTable s)
      (real_of_int (shd (randSource s)) / 2 ^ 63) = Inr l" "1 \<le> l" "l \<le> maxLevel s"
    by auto
  then show ?thesis by (simp add: randLevel_def)
qed

lemma lookup_None_iff: "lookup h k ns = None \<longleftrightarrow> (\<forall>b\<in>set ns. key (h ! b) \<noteq> k)"
  by (auto simp: lookup_def find_None_iff)

lemma lookup_Some:
  "lookup h k ns = Some a \<Longrightarrow> a \<in> set ns \<and> key (h ! a) = k"
  by (auto simp: lookup_def find_Some_iff)

lemma chain_heap_append: "chain h j p xs \<Longrightarrow> chain (h @ es) j p xs"
proof (rule chain_cong)
  assume ch: "chain h j p xs"
  then show "chain h j p xs" .
  show "length h \<le> length (h @ es)" by simp
  show "\<forall>b\<in>set xs. length (nxt ((h @ es) ! b)) = length (nxt (h ! b)) \<and>
      nxt ((h @ es) ! b) ! j = nxt (h ! b) ! j"
    using chain_valid [OF ch] by (simp add: nth_append)
qed

lemma level_nodes_cong:
  "\<forall>b\<in>set xs. length (nxt (h' ! b)) = length (nxt (h ! b)) \<Longrightarrow>
   level_nodes h' j xs = level_nodes h j xs"
  by (simp add: level_nodes_def height_def cong: filter_cong)

lemma level_nodes_append [simp]:
  "level_nodes h j (xs @ ys) = level_nodes h j xs @ level_nodes h j ys"
  by (simp add: level_nodes_def)

lemma level_nodes_Cons:
  "level_nodes h j (a # xs) = (if j < length (nxt (h ! a)) then a # level_nodes h j xs else level_nodes h j xs)"
  by (simp add: level_nodes_def height_def)

lemma level_nodes_subset: "set (level_nodes h j xs) \<subseteq> set xs"
  by (auto simp: level_nodes_def)

lemma level_nodes_distinct: "distinct xs \<Longrightarrow> distinct (level_nodes h j xs)"
  by (simp add: level_nodes_def)

lemma wf_cache:
  "wellformed s ns \<Longrightarrow> length c = nat (maxLevel s) \<Longrightarrow> wellformed (s\<lparr>prevNodesCache := c\<rparr>) ns"
  by (simp add: wellformed_def)

lemma preds_length [simp]: "length (preds s k ns) = nat (maxLevel s)"
  by (simp add: preds_def)

lemma preds_nth: "j < nat (maxLevel s) \<Longrightarrow> preds s k ns ! j = Some (pred_at (heap s) k j ns)"
  by (simp add: preds_def)

lemma preds_cache [simp]: "preds (s\<lparr>prevNodesCache := c\<rparr>) k ns = preds s k ns"
  by (simp add: preds_def)

lemma wf_val_update:
  assumes wf: "wellformed s ns" and a: "a < length (heap s)"
  shows "wellformed (s\<lparr>heap := (heap s)[a := (heap s ! a)\<lparr>val := v\<rparr>]\<rparr>) ns"
proof -
  let ?h = "heap s"
  let ?h' = "?h[a := (?h ! a)\<lparr>val := v\<rparr>]"
  have nx: "nxt (?h' ! b) = nxt (?h ! b)" if "b < length ?h" for b
    using that by (cases "b = a") simp_all
  have ky: "key (?h' ! b) = key (?h ! b)" if "b < length ?h" for b
    using that by (cases "b = a") simp_all
  have v: "\<forall>b\<in>set ns. b < length ?h" using wf_valid [OF wf] by blast
  have meq: "map (\<lambda>a. key (?h' ! a)) ns = map (\<lambda>a. key (?h ! a)) ns"
    using v ky by simp
  have srt: "sorted_wrt (<) (map (\<lambda>a. key (?h' ! a)) ns)"
    unfolding meq by (rule wf_sorted [OF wf])
  have hts: "list_all (\<lambda>e. 1 \<le> length (nxt e) \<and> length (nxt e) \<le> nat (maxLevel s)) ?h'"
    using wf_heights [OF wf] nx by (simp add: list_all_length)
  have ch: "chain ?h' i (nxt s ! i) (level_nodes ?h' i ns)" if "i < nat (maxLevel s)" for i
  proof -
    have "level_nodes ?h' i ns = level_nodes ?h i ns"
      using v nx by (intro level_nodes_cong) simp
    moreover have "chain ?h' i (nxt s ! i) (level_nodes ?h i ns)"
    proof (rule chain_cong [OF wf_chain [OF wf that]])
      show "length ?h \<le> length ?h'" by simp
      show "\<forall>b\<in>set (level_nodes ?h i ns). length (nxt (?h' ! b)) = length (nxt (?h ! b)) \<and>
          nxt (?h' ! b) ! i = nxt (?h ! b) ! i"
        using v nx level_nodes_subset [of ?h i ns] by auto
    qed
    ultimately show ?thesis by simp
  qed
  show ?thesis
    using wf_fields [OF wf] hts v srt ch by (simp add: wellformed_def list_all_iff)
qed

lemma sorted_insert_between:
  fixes h :: "('k::linorder, 'v) Element list"
  assumes srt: "sorted_wrt (<) (map (\<lambda>a. key (h ! a)) ns)"
    and absent: "\<forall>b\<in>set ns. key (h ! b) \<noteq> k"
  shows "sorted_wrt (<) (map (\<lambda>a. key (h ! a)) (below h k ns) @ k # map (\<lambda>a. key (h ! a)) (not_below h k ns))"
proof -
  have sp: "ns = below h k ns @ not_below h k ns" using srt by (rule sorted_split_below)
  have "sorted_wrt (<) (map (\<lambda>a. key (h ! a)) (below h k ns @ not_below h k ns))"
    using srt sp by simp
  then have parts: "sorted_wrt (<) (map (\<lambda>a. key (h ! a)) (below h k ns))"
    "sorted_wrt (<) (map (\<lambda>a. key (h ! a)) (not_below h k ns))"
    by (simp_all add: sorted_wrt_append)
  have lo: "\<forall>b\<in>set (below h k ns). key (h ! b) < k" by (simp add: below_def)
  have hi: "\<forall>b\<in>set (not_below h k ns). k < key (h ! b)"
    using absent by (auto simp: not_below_def)
  show ?thesis using parts lo hi by (fastforce simp: sorted_wrt_append)
qed

lemma Set_insert_correct:
  fixes s :: "('k::linorder, 'v) SkipList"
  assumes wf: "wellformed s ns" and absent: "lookup (heap s) k ns = None"
  shows "\<exists>s'. Set_insert k v (preds s k ns) s = Inr (length (heap s), s') \<and>
     wellformed s' (below (heap s) k ns @ length (heap s) # not_below (heap s) k ns) \<and>
     length (heap s') = Suc (length (heap s)) \<and>
     key (heap s' ! length (heap s)) = k \<and> val (heap s' ! length (heap s)) = v \<and>
     (\<forall>b<length (heap s). key (heap s' ! b) = key (heap s ! b) \<and> val (heap s' ! b) = val (heap s ! b) \<and>
          length (nxt (heap s' ! b)) = length (nxt (heap s ! b))) \<and>
     maxLevel s' = maxLevel s \<and> Length s' = Length s + 1 \<and> probability s' = probability s \<and>
     probTable s' = probTable s \<and> prevNodesCache s' = prevNodesCache s \<and>
     randSource s' = stl (randSource s)"
proof -
  define h where "h = heap s"
  define a where "a = length h"
  define lo where "lo = below h k ns"
  define hi where "hi = not_below h k ns"
  define M where "M = nat (maxLevel s)"
  from randLevel_bounds [OF wf_fields(1,5) [OF wf]] obtain l where
    l: "randLevel s = Inr (l, s\<lparr>randSource := stl (randSource s)\<rparr>)" "1 \<le> l" "l \<le> maxLevel s"
    by blast
  define L where "L = nat l"
  have L: "1 \<le> L" "L \<le> M" using l by (simp_all add: L_def M_def)
  define new :: "('k, 'v) Element" where "new = \<lparr>nxt = replicate L None, key = k, val = v\<rparr>"
  define s2 where "s2 = s\<lparr>randSource := stl (randSource s), heap := h @ [new]\<rparr>"
  define B where "B = (\<lambda>j. level_nodes h j lo)"
  define A where "A = (\<lambda>j. level_nodes h j hi)"
  have sp: "ns = lo @ hi" unfolding lo_def hi_def h_def using wf_sorted [OF wf] by (rule sorted_split_below)
  have valid: "\<forall>b\<in>set ns. b < a" using wf_valid [OF wf] by (simp add: a_def h_def)
  have sub: "set lo \<subseteq> set ns" "set hi \<subseteq> set ns" by (simp_all add: lo_def hi_def)
  have vlh: "\<forall>b\<in>set lo. b < a" "\<forall>b\<in>set hi. b < a" using valid sub by blast+
  have BA: "B j @ A j = level_nodes h j ns" for j by (subst sp) (simp add: B_def A_def)
  have dist: "\<forall>j<L. distinct (B j @ A j) \<and> a \<notin> set (B j @ A j)"
  proof (intro allI impI conjI)
    fix j
    show "distinct (B j @ A j)" unfolding BA using wf_distinct [OF wf] by (rule level_nodes_distinct)
    show "a \<notin> set (B j @ A j)" unfolding BA using valid level_nodes_subset [of h j ns] by auto
  qed
  have prevs: "\<forall>j<L. j < length (preds s k ns) \<and> preds s k ns ! j = Some (rightmost (B j))"
    using L by (simp add: preds_nth M_def B_def pred_at_def lo_def h_def)
  have len2: "length (nxt s2) = M" using wf_fields(3) [OF wf] by (simp add: s2_def M_def)
  have ch2: "\<forall>j<length (nxt s2). chain (heap s2) j (nxt s2 ! j) (if j < 0 then B j @ a # A j else B j @ A j)"
  proof (intro allI impI)
    fix j assume "j < length (nxt s2)"
    then have "j < nat (maxLevel s)" using len2 by (simp add: M_def)
    from chain_heap_append [OF wf_chain [OF wf this], of "[new]"]
    show "chain (heap s2) j (nxt s2 ! j) (if j < 0 then B j @ a # A j else B j @ A j)"
      by (simp add: BA s2_def h_def)
  qed
  have "\<exists>t'. Set_link [0..<L] a (preds s k ns) s2 = Inr t' \<and> skeleton t' = skeleton s2 \<and>
      (\<forall>j<length (nxt s2). chain (heap t') j (nxt t' ! j) (if j < L then B j @ a # A j else B j @ A j))"
  proof (rule Set_link_correct [OF dist prevs _ _ _ _ ch2])
    show "0 \<le> L" by simp
    show "L \<le> length (nxt s2)" using L len2 by simp
    show "a < length (heap s2)" by (simp add: s2_def a_def)
    show "length (nxt (heap s2 ! a)) = L" by (simp add: s2_def a_def new_def)
  qed
  then obtain t' where t': "Set_link [0..<L] a (preds s k ns) s2 = Inr t'"
    and sk: "skeleton t' = skeleton s2"
    and ch': "\<forall>j<length (nxt s2). chain (heap t') j (nxt t' ! j) (if j < L then B j @ a # A j else B j @ A j)"
    by blast
  define s' where "s' = t'\<lparr>Length := Length t' + 1\<rparr>"
  have run: "Set_insert k v (preds s k ns) s = Inr (length (heap s), s')"
    using l(1) t' by (simp add: Set_insert_def Let_def L_def s2_def new_def a_def h_def s'_def)
  have flds: "maxLevel s' = maxLevel s" "Length s' = Length s + 1" "probability s' = probability s"
    "probTable s' = probTable s" "prevNodesCache s' = prevNodesCache s"
    "randSource s' = stl (randSource s)" "length (nxt s') = M" "length (heap s') = Suc (length h)"
    using skeleton_fields [OF sk] len2 by (simp_all add: s'_def s2_def)
  have el: "key (heap s' ! b) = key (heap s2 ! b)" "val (heap s' ! b) = val (heap s2 ! b)"
    "length (nxt (heap s' ! b)) = length (nxt (heap s2 ! b))" if "b \<le> a" for b
    using skeleton_elem [OF sk, of b] that by (simp_all add: s'_def s2_def a_def)
  have old: "heap s2 ! b = h ! b" if "b < a" for b
    using that by (simp add: s2_def a_def nth_append)
  have new2: "heap s2 ! a = new" by (simp add: s2_def a_def)
  have elold: "key (heap s' ! b) = key (h ! b) \<and> val (heap s' ! b) = val (h ! b) \<and>
      length (nxt (heap s' ! b)) = length (nxt (h ! b))" if "b < a" for b
    using el [of b] old [of b] that by simp
  have elnew: "key (heap s' ! a) = k" "val (heap s' ! a) = v" "length (nxt (heap s' ! a)) = L"
    using el [of a] new2 by (simp_all add: new_def)
  have hts: "list_all (\<lambda>e. 1 \<le> length (nxt e) \<and> length (nxt e) \<le> nat (maxLevel s')) (heap s')"
    unfolding list_all_length
  proof (intro allI impI)
    fix b assume "b < length (heap s')"
    then have "b < a \<or> b = a" using flds(8) by (auto simp: a_def)
    then show "1 \<le> length (nxt (heap s' ! b)) \<and> length (nxt (heap s' ! b)) \<le> nat (maxLevel s')"
    proof
      assume b: "b < a"
      then show ?thesis using elold [OF b] wf_heights [OF wf, of b] flds(1) by (simp add: a_def h_def)
    next
      assume "b = a"
      then show ?thesis using elnew(3) L flds(1) by (simp add: M_def)
    qed
  qed
  have val': "list_all (\<lambda>b. b < length (heap s')) (lo @ a # hi)"
    using vlh flds(8) by (auto simp: list_all_iff a_def)
  have keys: "map (\<lambda>b. key (heap s' ! b)) (lo @ a # hi)
      = map (\<lambda>b. key (h ! b)) lo @ k # map (\<lambda>b. key (h ! b)) hi"
    using vlh elold elnew(1) by simp
  have "sorted_wrt (<) (map (\<lambda>b. key (h ! b)) lo @ k # map (\<lambda>b. key (h ! b)) hi)"
    unfolding lo_def hi_def
    using wf_sorted [OF wf] absent
    by (intro sorted_insert_between) (simp_all add: h_def lookup_None_iff)
  then have srt: "sorted_wrt (<) (map (\<lambda>b. key (heap s' ! b)) (lo @ a # hi))"
    unfolding keys .
  have lv: "level_nodes (heap s') j xs = level_nodes h j xs" if "set xs \<subseteq> set ns" for j xs
    using that valid elold by (intro level_nodes_cong) auto
  have chs: "list_all (\<lambda>i. chain (heap s') i (nxt s' ! i) (level_nodes (heap s') i (lo @ a # hi)))
      [0..<nat (maxLevel s')]"
    unfolding list_all_iff
  proof
    fix j assume "j \<in> set [0..<nat (maxLevel s')]"
    then have j: "j < length (nxt s2)" using flds(1) len2 by (simp add: M_def)
    have "level_nodes (heap s') j (lo @ a # hi) = (if j < L then B j @ a # A j else B j @ A j)"
      using lv [of lo j] lv [of hi j] sub elnew(3)
      by (simp add: level_nodes_Cons B_def A_def)
    then show "chain (heap s') j (nxt s' ! j) (level_nodes (heap s') j (lo @ a # hi))"
      using ch' [rule_format, OF j] by (simp add: s'_def)
  qed
  have "wellformed s' (lo @ a # hi)"
    unfolding wellformed_def
    using wf_fields [OF wf] flds hts val' srt chs sp by (simp add: M_def)
  then show ?thesis
    using run flds elold elnew by (auto simp: lo_def hi_def a_def h_def)
qed

lemma lookup_first:
  assumes "wellformed s ns"
  shows "lookup (heap s) k ns = Some a \<Longrightarrow>
           first (not_below (heap s) k ns) = Some a \<and> key (heap s ! a) = k \<and> a < length (heap s)"
    and "lookup (heap s) k ns = None \<Longrightarrow>
           first (not_below (heap s) k ns) = None \<or>
           (\<exists>b. first (not_below (heap s) k ns) = Some b \<and> b < length (heap s) \<and> \<not> key (heap s ! b) \<le> k)"
proof -
  note eq = lookup_not_below [OF wf_sorted [OF assms], of k]
  note fv = first_not_below_valid [OF assms, of k]
  show "lookup (heap s) k ns = Some a \<Longrightarrow>
           first (not_below (heap s) k ns) = Some a \<and> key (heap s ! a) = k \<and> a < length (heap s)"
    using eq fv by (auto split: option.splits if_splits)
  show "lookup (heap s) k ns = None \<Longrightarrow>
           first (not_below (heap s) k ns) = None \<or>
           (\<exists>b. first (not_below (heap s) k ns) = Some b \<and> b < length (heap s) \<and> \<not> key (heap s ! b) \<le> k)"
    using eq fv by (auto split: option.splits if_splits)
qed

lemma load_next_cache [simp]:
  "load_next (s\<lparr>prevNodesCache := c\<rparr>) p i = load_next s p i"
  by (simp add: load_next_def split: option.split nodeptr.split)

lemma candidate:
  assumes wf: "wellformed s ns"
  shows "index (preds s k ns) 0 = Inr (Some (pred_at (heap s) k 0 ns))"
    and "load_next s (Some (pred_at (heap s) k 0 ns)) 0 = Inr (first (not_below (heap s) k ns))"
proof -
  have M: "0 < nat (maxLevel s)" using wf_fields(1) [OF wf] by simp
  then show "index (preds s k ns) 0 = Inr (Some (pred_at (heap s) k 0 ns))"
    by (simp add: index_def preds_nth)
  show "load_next s (Some (pred_at (heap s) k 0 ns)) 0 = Inr (first (not_below (heap s) k ns))"
    using load_pred [OF wf M, of k] succ0 [OF wf, of k] by simp
qed

lemma Set_update_correct:
  assumes wf: "wellformed s ns" and found: "lookup (heap s) k ns = Some a"
  shows "Set k v s = Some (Inr (a, s\<lparr>prevNodesCache := preds s k ns,
                                    heap := (heap s)[a := (heap s ! a)\<lparr>val := v\<rparr>]\<rparr>))"
    and "wellformed (s\<lparr>prevNodesCache := preds s k ns,
              heap := (heap s)[a := (heap s ! a)\<lparr>val := v\<rparr>]\<rparr>) ns"
proof -
  from lookup_first(1) [OF wf found]
  have f: "first (not_below (heap s) k ns) = Some a" "key (heap s ! a) = k" "a < length (heap s)"
    by simp_all
  show "Set k v s = Some (Inr (a, s\<lparr>prevNodesCache := preds s k ns,
                                    heap := (heap s)[a := (heap s ! a)\<lparr>val := v\<rparr>]\<rparr>))"
    using f by (simp add: Set_def getPrevElementNodes_correct [OF wf] candidate [OF wf] elem_at_def)
  have "wellformed (s\<lparr>prevNodesCache := preds s k ns\<rparr>) ns" using wf by (simp add: wf_cache)
  from wf_val_update [OF this, of a v] f(3)
  show "wellformed (s\<lparr>prevNodesCache := preds s k ns,
              heap := (heap s)[a := (heap s ! a)\<lparr>val := v\<rparr>]\<rparr>) ns" by simp
qed

lemma Set_new_correct:
  fixes s :: "('k::linorder, 'v) SkipList"
  assumes wf: "wellformed s ns" and absent: "lookup (heap s) k ns = None"
  shows "\<exists>s'. Set k v s = Some (Inr (length (heap s), s')) \<and>
     wellformed s' (below (heap s) k ns @ length (heap s) # not_below (heap s) k ns) \<and>
     length (heap s') = Suc (length (heap s)) \<and>
     key (heap s' ! length (heap s)) = k \<and> val (heap s' ! length (heap s)) = v \<and>
     (\<forall>b<length (heap s). key (heap s' ! b) = key (heap s ! b) \<and> val (heap s' ! b) = val (heap s ! b) \<and>
          length (nxt (heap s' ! b)) = length (nxt (heap s ! b))) \<and>
     maxLevel s' = maxLevel s \<and> Length s' = Length s + 1 \<and> probability s' = probability s \<and>
     probTable s' = probTable s \<and> prevNodesCache s' = preds s k ns \<and>
     randSource s' = stl (randSource s)"
proof -
  let ?s1 = "s\<lparr>prevNodesCache := preds s k ns\<rparr>"
  have wf1: "wellformed ?s1 ns" using wf by (simp add: wf_cache)
  have "Set k v s = Some (Set_insert k v (preds s k ns) ?s1)"
    using lookup_first(2) [OF wf absent]
    by (auto simp: Set_def getPrevElementNodes_correct [OF wf] candidate [OF wf] elem_at_def)
  moreover from Set_insert_correct [OF wf1, of k v] absent
  have "\<exists>s'. Set_insert k v (preds s k ns) ?s1 = Inr (length (heap s), s') \<and>
     wellformed s' (below (heap s) k ns @ length (heap s) # not_below (heap s) k ns) \<and>
     length (heap s') = Suc (length (heap s)) \<and>
     key (heap s' ! length (heap s)) = k \<and> val (heap s' ! length (heap s)) = v \<and>
     (\<forall>b<length (heap s). key (heap s' ! b) = key (heap s ! b) \<and> val (heap s' ! b) = val (heap s ! b) \<and>
          length (nxt (heap s' ! b)) = length (nxt (heap s ! b))) \<and>
     maxLevel s' = maxLevel s \<and> Length s' = Length s + 1 \<and> probability s' = probability s \<and>
     probTable s' = probTable s \<and> prevNodesCache s' = preds s k ns \<and>
     randSource s' = stl (randSource s)"
    by simp
  ultimately show ?thesis by simp
qed

lemma Remove_absent_correct:
  assumes wf: "wellformed s ns" and absent: "lookup (heap s) k ns = None"
  shows "Remove k s = Some (Inr (None, s\<lparr>prevNodesCache := preds s k ns\<rparr>))"
  using lookup_first(2) [OF wf absent]
  by (auto simp: Remove_def getPrevElementNodes_correct [OF wf] candidate [OF wf] elem_at_def)

lemma first_Some_split: "first xs = Some a \<Longrightarrow> \<exists>rest. xs = a # rest"
  by (cases xs) simp_all

lemma Remove_found_correct:
  fixes s :: "('k::linorder, 'v) SkipList"
  assumes wf: "wellformed s ns" and found: "lookup (heap s) k ns = Some a"
  shows "\<exists>s'. Remove k s = Some (Inr (Some a, s')) \<and>
     wellformed s' (remove1 a ns) \<and>
     skeleton s' = skeleton (s\<lparr>prevNodesCache := preds s k ns, Length := Length s - 1\<rparr>) \<and>
     heap s' ! a = heap s ! a \<and>
     (\<forall>p j. valid_ptr s p \<longrightarrow> \<not> (j < length (nxt (heap s ! a)) \<and> p = pred_at (heap s) k j ns) \<longrightarrow>
          nxt_of s' p ! j = nxt_of s p ! j)"
proof -
  define h where "h = heap s"
  define lo where "lo = below h k ns"
  define hi where "hi = not_below h k ns"
  define M where "M = nat (maxLevel s)"
  define H where "H = length (nxt (h ! a))"
  define s1 where "s1 = s\<lparr>prevNodesCache := preds s k ns\<rparr>"
  from lookup_first(1) [OF wf found]
  have f: "first hi = Some a" "key (h ! a) = k" "a < length h"
    by (simp_all add: hi_def h_def)
  then obtain rest where hi: "hi = a # rest" using first_Some_split by blast
  define B where "B = (\<lambda>j. level_nodes h j lo)"
  define A where "A = (\<lambda>j. level_nodes h j rest)"
  have wf1: "wellformed s1 ns" using wf by (simp add: wf_cache s1_def)
  have sp: "ns = lo @ a # rest"
    using sorted_split_below [OF wf_sorted [OF wf], of k] hi by (simp add: lo_def hi_def h_def)
  have dns: "distinct ns" using wf_distinct [OF wf] .
  have valid: "\<forall>b\<in>set ns. b < length h" using wf_valid [OF wf] by (simp add: h_def)
  have sub: "set lo \<subseteq> set ns" "set rest \<subseteq> set ns" using sp by auto
  have alo: "a \<notin> set lo" "a \<notin> set rest" using dns sp by auto
  have rm: "remove1 a ns = lo @ rest" using alo sp by (simp add: remove1_append)
  have lvl: "level_nodes h j ns = (if 0 \<le> j \<and> j < H then B j @ a # A j else B j @ A j)" for j
    by (subst sp) (simp add: level_nodes_Cons B_def A_def H_def)
  have HM: "1 \<le> H" "H \<le> M" using wf_heights [OF wf, of a] f(3) by (simp_all add: H_def h_def M_def)
  have dist: "\<forall>j<H. distinct (B j @ a # A j)"
  proof (intro allI impI)
    fix j assume "j < H"
    then have "B j @ a # A j = level_nodes h j ns" using lvl by simp
    then show "distinct (B j @ a # A j)" using level_nodes_distinct [OF dns, of h j] by simp
  qed
  have prevs: "\<forall>j<H. j < length (preds s k ns) \<and> preds s k ns ! j = Some (rightmost (B j))"
    using HM by (simp add: preds_nth M_def B_def pred_at_def lo_def h_def)
  have len1: "length (nxt s1) = M" using wf_fields(3) [OF wf] by (simp add: s1_def M_def)
  have ch1: "\<forall>j<length (nxt s1). chain (heap s1) j (nxt s1 ! j)
        (if 0 \<le> j \<and> j < H then B j @ a # A j else B j @ A j)"
  proof (intro allI impI)
    fix j assume "j < length (nxt s1)"
    then have "j < nat (maxLevel s1)" using len1 by (simp add: M_def s1_def)
    from wf_chain [OF wf1 this]
    show "chain (heap s1) j (nxt s1 ! j) (if 0 \<le> j \<and> j < H then B j @ a # A j else B j @ A j)"
      using lvl [of j] by (simp add: s1_def h_def)
  qed
  have "\<exists>t'. Remove_unlink [0..<H] a (preds s k ns) s1 = Inr t' \<and> skeleton t' = skeleton s1 \<and>
      (\<forall>j<length (nxt s1). chain (heap t') j (nxt t' ! j) (B j @ A j)) \<and>
      (\<forall>p j. valid_ptr s1 p \<longrightarrow> \<not> (0 \<le> j \<and> j < H \<and> p = rightmost (B j)) \<longrightarrow>
           (nxt_of t' p) ! j = (nxt_of s1 p) ! j)"
  proof (rule Remove_unlink_correct [OF dist prevs _ _ ch1])
    show "0 \<le> H" by simp
    show "H \<le> length (nxt s1)" using HM len1 by simp
  qed
  then obtain t' where t': "Remove_unlink [0..<H] a (preds s k ns) s1 = Inr t'"
    and sk: "skeleton t' = skeleton s1"
    and ch': "\<forall>j<length (nxt s1). chain (heap t') j (nxt t' ! j) (B j @ A j)"
    and fr: "\<forall>p j. valid_ptr s1 p \<longrightarrow> \<not> (0 \<le> j \<and> j < H \<and> p = rightmost (B j)) \<longrightarrow>
           (nxt_of t' p) ! j = (nxt_of s1 p) ! j"
    by blast
  define s' where "s' = t'\<lparr>Length := Length t' - 1\<rparr>"
  have run: "Remove k s = Some (Inr (Some a, s'))"
    using f t' by (simp add: Remove_def getPrevElementNodes_correct [OF wf] candidate [OF wf]
        elem_at_def hi_def h_def H_def s1_def s'_def)
  have sk': "skeleton s' = skeleton (s\<lparr>prevNodesCache := preds s k ns, Length := Length s - 1\<rparr>)"
  proof -
    have "skeleton s' = (skeleton t')\<lparr>Length := Length t' - 1\<rparr>" by (simp add: s'_def skeleton_def)
    also have "\<dots> = (skeleton s1)\<lparr>Length := Length s1 - 1\<rparr>"
      using sk skeleton_fields(2) [OF sk] by simp
    also have "\<dots> = skeleton (s\<lparr>prevNodesCache := preds s k ns, Length := Length s - 1\<rparr>)"
      by (simp add: s1_def skeleton_def)
    finally show ?thesis .
  qed
  have flds: "maxLevel s' = maxLevel s" "Length s' = Length s - 1" "probTable s' = probTable s"
    "prevNodesCache s' = preds s k ns" "length (nxt s') = M" "length (heap s') = length h"
    using skeleton_fields [OF sk] len1 by (simp_all add: s'_def s1_def h_def)
  have el: "key (heap s' ! b) = key (h ! b)" "val (heap s' ! b) = val (h ! b)"
    "length (nxt (heap s' ! b)) = length (nxt (h ! b))" if "b < length h" for b
    using skeleton_elem [OF sk, of b] that by (simp_all add: s'_def s1_def h_def)
  have fr': "nxt_of s' p ! j = nxt_of s p ! j"
    if "valid_ptr s p" "\<not> (j < H \<and> p = pred_at h k j ns)" for p j
  proof -
    have "valid_ptr s1 p" using that(1) by (cases p) (simp_all add: s1_def)
    moreover have "\<not> (0 \<le> j \<and> j < H \<and> p = rightmost (B j))"
      using that(2) by (simp add: B_def pred_at_def lo_def)
    ultimately have "nxt_of t' p ! j = nxt_of s1 p ! j" using fr by blast
    then show ?thesis by (cases p) (simp_all add: s'_def s1_def)
  qed
  have same: "heap s' ! a = h ! a"
  proof -
    have "Elem a \<noteq> pred_at h k j ns" for j
      using rightmost_cases [of "B j"] level_nodes_subset [of h j lo] alo(1)
      by (auto simp: B_def pred_at_def lo_def)
    then have "nxt_of s' (Elem a) ! j = nxt_of s (Elem a) ! j" for j
      using fr' [of "Elem a" j] f(3) by (simp add: h_def)
    then have "nxt (heap s' ! a) = nxt (h ! a)"
      using el(3) [OF f(3)] by (intro nth_equalityI) (simp_all add: h_def)
    then show ?thesis using el(1,2) [OF f(3)] by (intro Element.equality) simp_all
  qed
  have hts: "list_all (\<lambda>e. 1 \<le> length (nxt e) \<and> length (nxt e) \<le> nat (maxLevel s')) (heap s')"
    unfolding list_all_length
  proof (intro allI impI)
    fix b assume "b < length (heap s')"
    then have b: "b < length h" using flds(6) by simp
    then show "1 \<le> length (nxt (heap s' ! b)) \<and> length (nxt (heap s' ! b)) \<le> nat (maxLevel s')"
      using el(3) [OF b] wf_heights [OF wf, of b] flds(1) by (simp add: h_def)
  qed
  have val': "list_all (\<lambda>b. b < length (heap s')) (lo @ rest)"
    using valid sub flds(6) by (auto simp: list_all_iff)
  have keys: "map (\<lambda>b. key (heap s' ! b)) (lo @ rest) = map (\<lambda>b. key (h ! b)) (lo @ rest)"
    using valid sub el(1) by auto
  have "sorted_wrt (<) (map (\<lambda>b. key (h ! b)) (lo @ a # rest))"
    using wf_sorted [OF wf] sp by (simp add: h_def)
  then have "sorted_wrt (<) (map (\<lambda>b. key (h ! b)) (lo @ rest))"
    by (auto simp: sorted_wrt_append)
  then have srt: "sorted_wrt (<) (map (\<lambda>b. key (heap s' ! b)) (lo @ rest))"
    unfolding keys .
  have lv: "level_nodes (heap s') j xs = level_nodes h j xs" if "set xs \<subseteq> set ns" for j xs
    using that valid el(3) by (intro level_nodes_cong) auto
  have chs: "list_all (\<lambda>i. chain (heap s') i (nxt s' ! i) (level_nodes (heap s') i (lo @ rest)))
      [0..<nat (maxLevel s')]"
    unfolding list_all_iff
  proof
    fix j assume "j \<in> set [0..<nat (maxLevel s')]"
    then have j: "j < length (nxt s1)" using flds(1) len1 by (simp add: M_def)
    have "level_nodes (heap s') j (lo @ rest) = B j @ A j"
      using lv [of lo j] lv [of rest j] sub by (simp add: B_def A_def)
    then show "chain (heap s') j (nxt s' ! j) (level_nodes (heap s') j (lo @ rest))"
      using ch' [rule_format, OF j] by (simp add: s'_def)
  qed
  have "int (length ns) - 1 = int (length (lo @ rest))" using sp by simp
  then have "wellformed s' (lo @ rest)"
    unfolding wellformed_def
    using wf_fields [OF wf] flds hts val' srt chs by (simp add: M_def)
  then show ?thesis
    using run rm sk' same fr' by (auto simp: h_def H_def)
qed

lemma map_of_insert_mid:
  "k \<notin> fst ` set xs \<Longrightarrow> map_of (xs @ (k, v) # ys) = (map_of (xs @ ys))(k \<mapsto> v)"
  by (induction xs) (auto simp: fun_upd_twist)

lemma map_of_delete_mid:
  "k \<notin> fst ` set xs \<Longrightarrow> k \<notin> fst ` set ys \<Longrightarrow>
   map_of (xs @ ys) = (map_of (xs @ (k, w) # ys))(k := None)"
proof -
  assume a: "k \<notin> fst ` set xs" "k \<notin> fst ` set ys"
  then have "map_of (xs @ ys) k = None" by (simp add: map_of_eq_None_iff image_Un)
  then show ?thesis using map_of_insert_mid [OF a(1), of w ys] by (auto simp: fun_eq_iff)
qed

lemma entries_append [simp]: "entries h (xs @ ys) = entries h xs @ entries h ys"
  by (simp add: entries_def)

lemma entries_Cons [simp]: "entries h (a # xs) = (key (h ! a), val (h ! a)) # entries h xs"
  by (simp add: entries_def)

lemma entries_Nil [simp]: "entries h [] = []"
  by (simp add: entries_def)

lemma entries_cong:
  "\<forall>b\<in>set xs. key (h' ! b) = key (h ! b) \<and> val (h' ! b) = val (h ! b) \<Longrightarrow>
   entries h' xs = entries h xs"
  by (simp add: entries_def)

lemma keys_entries: "fst ` set (entries h xs) = (\<lambda>a. key (h ! a)) ` set xs"
  by (auto simp: entries_def image_iff)

lemma contents_lookup:
  "contents s ns k = map_option (\<lambda>a. val (heap s ! a)) (lookup (heap s) k ns)"
  by (induction ns) (auto simp: contents_def lookup_def)

lemma contents_None_iff: "contents s ns k = None \<longleftrightarrow> lookup (heap s) k ns = None"
  by (simp add: contents_lookup)

text \<open>The list splits around the element that holds the key.\<close>

lemma found_split:
  fixes s :: "('k::linorder, 'v) SkipList"
  assumes wf: "wellformed s ns" and found: "lookup (heap s) k ns = Some a"
  shows "\<exists>rest. ns = below (heap s) k ns @ a # rest \<and> key (heap s ! a) = k \<and>
           k \<notin> (\<lambda>b. key (heap s ! b)) ` set (below (heap s) k ns) \<and>
           k \<notin> (\<lambda>b. key (heap s ! b)) ` set rest \<and> a \<notin> set (below (heap s) k ns) \<and> a \<notin> set rest"
proof -
  let ?h = "heap s"
  from lookup_first(1) [OF wf found]
  have f: "first (not_below ?h k ns) = Some a" "key (?h ! a) = k" by simp_all
  then obtain rest where hi: "not_below ?h k ns = a # rest" using first_Some_split by blast
  have sp: "ns = below ?h k ns @ a # rest"
    using sorted_split_below [OF wf_sorted [OF wf], of k] hi by simp
  have "sorted_wrt (<) (map (\<lambda>b. key (?h ! b)) (below ?h k ns @ a # rest))"
    using wf_sorted [OF wf] sp by simp
  then have "\<forall>b\<in>set rest. k < key (?h ! b)" using f(2) by (auto simp: sorted_wrt_append)
  moreover have "\<forall>b\<in>set (below ?h k ns). key (?h ! b) < k" by (simp add: below_def)
  moreover have "distinct (below ?h k ns @ a # rest)" using wf_distinct [OF wf] sp by simp
  ultimately show ?thesis using sp f(2) by (intro exI [of _ rest]) auto
qed

lemma contents_Set_update:
  fixes s :: "('k::linorder, 'v) SkipList"
  assumes wf: "wellformed s ns" and found: "lookup (heap s) k ns = Some a"
  shows "contents (s\<lparr>prevNodesCache := c, heap := (heap s)[a := (heap s ! a)\<lparr>val := v\<rparr>]\<rparr>) ns
          = (contents s ns)(k \<mapsto> v)"
proof -
  define h where "h = heap s"
  define h' where "h' = h[a := (h ! a)\<lparr>val := v\<rparr>]"
  define lo where "lo = below h k ns"
  from found_split [OF wf found] obtain rest where
    sp: "ns = lo @ a # rest" and ka: "key (h ! a) = k"
    and nk: "k \<notin> (\<lambda>b. key (h ! b)) ` set lo" "k \<notin> (\<lambda>b. key (h ! b)) ` set rest"
    and na: "a \<notin> set lo" "a \<notin> set rest" unfolding lo_def h_def by blast
  have a: "a < length h" using wf_valid [OF wf, of a] sp by (simp add: h_def)
  have ne: "h' ! b = h ! b" if "b \<in> set lo \<or> b \<in> set rest" for b
  proof -
    have "a \<noteq> b" using that na by auto
    then show ?thesis by (simp add: h'_def)
  qed
  have e1: "entries h' lo = entries h lo" using ne by (intro entries_cong) simp
  have e2: "entries h' rest = entries h rest" using ne by (intro entries_cong) simp
  have nlo: "k \<notin> fst ` set (entries h lo)" using nk by (simp add: keys_entries)
  have ha: "key (h' ! a) = k" "val (h' ! a) = v" using a ka by (simp_all add: h'_def)
  have "entries h' ns = entries h lo @ (k, v) # entries h rest"
    unfolding sp by (simp add: e1 e2 ha)
  then have "map_of (entries h' ns) = (map_of (entries h lo @ entries h rest))(k \<mapsto> v)"
    using map_of_insert_mid [OF nlo] by simp
  moreover have "entries h ns = entries h lo @ (k, val (h ! a)) # entries h rest"
    unfolding sp by (simp add: ka)
  then have "map_of (entries h ns) = (map_of (entries h lo @ entries h rest))(k \<mapsto> val (h ! a))"
    using map_of_insert_mid [OF nlo] by simp
  ultimately have "map_of (entries h' ns) = (map_of (entries h ns))(k \<mapsto> v)" by simp
  then show ?thesis by (simp add: contents_def h'_def h_def)
qed

lemma contents_Set_new:
  fixes s :: "('k::linorder, 'v) SkipList"
  assumes wf: "wellformed s ns" and absent: "lookup (heap s) k ns = None"
    and old: "\<forall>b<length (heap s). key (heap s' ! b) = key (heap s ! b) \<and> val (heap s' ! b) = val (heap s ! b)"
    and new: "key (heap s' ! length (heap s)) = k" "val (heap s' ! length (heap s)) = v"
  shows "contents s' (below (heap s) k ns @ length (heap s) # not_below (heap s) k ns)
          = (contents s ns)(k \<mapsto> v)"
proof -
  define h where "h = heap s"
  define lo where "lo = below h k ns"
  define hi where "hi = not_below h k ns"
  have sp: "ns = lo @ hi"
    unfolding lo_def hi_def h_def using wf_sorted [OF wf] by (rule sorted_split_below)
  have v: "\<forall>b\<in>set ns. b < length h" using wf_valid [OF wf] by (simp add: h_def)
  have sub: "set lo \<subseteq> set ns" "set hi \<subseteq> set ns" by (simp_all add: lo_def hi_def)
  have e1: "entries (heap s') lo = entries h lo"
    using v old sub by (intro entries_cong) (auto simp: h_def)
  have e2: "entries (heap s') hi = entries h hi"
    using v old sub by (intro entries_cong) (auto simp: h_def)
  have nlo: "k \<notin> fst ` set (entries h lo)" by (auto simp: keys_entries below_def lo_def)
  have "entries (heap s') (lo @ length h # hi) = entries h lo @ (k, v) # entries h hi"
    using new by (simp add: e1 e2 h_def)
  then have "map_of (entries (heap s') (lo @ length h # hi))
      = (map_of (entries h lo @ entries h hi))(k \<mapsto> v)"
    using map_of_insert_mid [OF nlo] by simp
  moreover have "entries h ns = entries h lo @ entries h hi" unfolding sp by simp
  ultimately show ?thesis by (simp add: contents_def lo_def hi_def h_def)
qed

lemma contents_Remove:
  fixes s :: "('k::linorder, 'v) SkipList"
  assumes wf: "wellformed s ns" and found: "lookup (heap s) k ns = Some a"
    and sk: "skeleton s' = skeleton (s\<lparr>prevNodesCache := c, Length := n\<rparr>)"
  shows "contents s' (remove1 a ns) = (contents s ns)(k := None)"
proof -
  define h where "h = heap s"
  define lo where "lo = below h k ns"
  from found_split [OF wf found] obtain rest where
    sp: "ns = lo @ a # rest" and ka: "key (h ! a) = k"
    and nk: "k \<notin> (\<lambda>b. key (h ! b)) ` set lo" "k \<notin> (\<lambda>b. key (h ! b)) ` set rest"
    and na: "a \<notin> set lo" "a \<notin> set rest" unfolding lo_def h_def by blast
  have rm: "remove1 a ns = lo @ rest" unfolding sp by (simp add: remove1_append na)
  have v: "\<forall>b\<in>set ns. b < length h" using wf_valid [OF wf] by (simp add: h_def)
  have el: "key (heap s' ! b) = key (h ! b) \<and> val (heap s' ! b) = val (h ! b)" if "b \<in> set ns" for b
    using skeleton_elem(1,2) [OF sk, of b] v that by (simp add: h_def)
  have sub: "set lo \<subseteq> set ns" "set rest \<subseteq> set ns" unfolding sp by auto
  have e1: "entries (heap s') lo = entries h lo" using el sub by (intro entries_cong) blast
  have e2: "entries (heap s') rest = entries h rest" using el sub by (intro entries_cong) blast
  have nlo: "k \<notin> fst ` set (entries h lo)" "k \<notin> fst ` set (entries h rest)"
    using nk by (simp_all add: keys_entries)
  have "entries h ns = entries h lo @ (k, val (h ! a)) # entries h rest"
    unfolding sp by (simp add: ka)
  then have "map_of (entries h lo @ entries h rest) = (map_of (entries h ns))(k := None)"
    using map_of_delete_mid [OF nlo, of "val (h ! a)"] by simp
  moreover have "entries (heap s') (remove1 a ns) = entries h lo @ entries h rest"
    by (simp add: rm e1 e2)
  ultimately show ?thesis by (simp add: contents_def h_def)
qed

lemma walk_chain: "chain h 0 p xs \<Longrightarrow> walk h p acc = Some (Inr (rev acc @ xs))"
proof (induction xs arbitrary: p acc)
  case Nil
  then show ?case by (subst walk.simps) simp
next
  case (Cons a xs)
  then have "walk h (nxt (h ! a) ! 0) (a # acc) = Some (Inr (rev (a # acc) @ xs))"
    by (intro Cons.IH) simp
  then show ?case using Cons.prems
    by (subst walk.simps) (simp add: Next_def elem_at_def index_def)
qed

lemma Front_correct: "wellformed s ns \<Longrightarrow> Front s = Inr (first ns)"
proof -
  assume wf: "wellformed s ns"
  have "chain (heap s) 0 (nxt s ! 0) ns"
    using wf_chain [OF wf, of 0] wf_fields(1) [OF wf] level0 [OF wf, of ns] by simp
  from chain_first [OF this] show ?thesis
    using wf_fields(1,3) [OF wf] by (simp add: Front_def index_def)
qed

lemma in_order_correct: "wellformed s ns \<Longrightarrow> in_order s = Some (Inr ns)"
proof -
  assume wf: "wellformed s ns"
  have "chain (heap s) 0 (nxt s ! 0) ns"
    using wf_chain [OF wf, of 0] wf_fields(1) [OF wf] level0 [OF wf, of ns] by simp
  from walk_chain [OF this, of "[]"] show ?thesis
    using wf_fields(1,3) [OF wf] by (simp add: in_order_def Front_def index_def)
qed

lemma probabilityTable_length: "0 \<le> M \<Longrightarrow> length (probabilityTable p M) = nat M"
  by (simp add: probabilityTable_def)

lemma wf_SetProbability: "wellformed s ns \<Longrightarrow> wellformed (SetProbability p s) ns"
  by (simp add: wellformed_def SetProbability_def probabilityTable_length)

lemma contents_SetProbability [simp]: "contents (SetProbability p s) ns = contents s ns"
  by (simp add: contents_def SetProbability_def)

lemma contents_cache [simp]: "contents (s\<lparr>prevNodesCache := c\<rparr>) ns = contents s ns"
  by (simp add: contents_def)

lemma wf_New:
  "1 \<le> m \<Longrightarrow> m \<le> 64 \<Longrightarrow>
   \<exists>s. NewWithMaxLevel m rs = Inr s \<and> wellformed s [] \<and> maxLevel s = m \<and> contents s [] = Map.empty"
  by (simp add: NewWithMaxLevel_def wellformed_def probabilityTable_length list_all_iff level_nodes_def
      contents_def)

lemma exec_wf:
  fixes s :: "('k::linorder, 'v) SkipList"
  assumes wf: "wellformed s ns"
  shows "\<exists>r s' ns'. exec c s = Some (Inr (r, s')) \<and> wellformed s' ns' \<and> maxLevel s' = maxLevel s \<and>
     contents s' ns' = spec_apply c (contents s ns) \<and>
     int (length ns') = int (length ns) + (if fresh_set c (contents s ns) then 1 else 0)
                          - (if successful_remove c r then 1 else 0)"
proof (cases c)
  case (OpSet k v)
  show ?thesis
  proof (cases "lookup (heap s) k ns")
    case None
    from Set_new_correct [OF wf None, of v] obtain s' where
      s': "Set k v s = Some (Inr (length (heap s), s'))"
        "wellformed s' (below (heap s) k ns @ length (heap s) # not_below (heap s) k ns)"
        "key (heap s' ! length (heap s)) = k" "val (heap s' ! length (heap s)) = v"
        "\<forall>b<length (heap s). key (heap s' ! b) = key (heap s ! b) \<and> val (heap s' ! b) = val (heap s ! b) \<and>
          length (nxt (heap s' ! b)) = length (nxt (heap s ! b))"
        "maxLevel s' = maxLevel s"
      by blast
    have c: "contents s' (below (heap s) k ns @ length (heap s) # not_below (heap s) k ns)
        = (contents s ns)(k \<mapsto> v)"
      using s'(5) by (intro contents_Set_new [OF wf None _ s'(3,4)]) simp
    have "length (below (heap s) k ns @ not_below (heap s) k ns) = length ns"
      using sorted_split_below [OF wf_sorted [OF wf], of k] by simp
    then have len: "int (length (below (heap s) k ns @ length (heap s) # not_below (heap s) k ns))
        = int (length ns) + 1" by simp
    have fr: "contents s ns k = None" using None by (simp add: contents_None_iff)
    show ?thesis
      apply (rule exI [of _ "RPointer (Some (length (heap s)))"])
      apply (rule exI [of _ s'])
      apply (rule exI [of _ "below (heap s) k ns @ length (heap s) # not_below (heap s) k ns"])
      using OpSet s'(1,2,6) c len fr by simp
  next
    case (Some a)
    have fr: "contents s ns k \<noteq> None" using Some by (simp add: contents_None_iff)
    show ?thesis
      apply (rule exI [of _ "RPointer (Some a)"])
      apply (rule exI [of _ "s\<lparr>prevNodesCache := preds s k ns,
              heap := (heap s)[a := (heap s ! a)\<lparr>val := v\<rparr>]\<rparr>"])
      apply (rule exI [of _ ns])
      using OpSet Set_update_correct [OF wf Some, of v]
        contents_Set_update [OF wf Some, where v = v] fr by simp
  qed
next
  case (OpGet k)
  show ?thesis
    apply (rule exI [of _ "RPointer (lookup (heap s) k ns)"])
    apply (rule exI [of _ s])
    apply (rule exI [of _ ns])
    using OpGet wf Get_correct [OF wf, of k] by simp
next
  case (OpRemove k)
  show ?thesis
  proof (cases "lookup (heap s) k ns")
    case None
    have "contents s ns k = None" using None by (simp add: contents_None_iff)
    then have id: "(contents s ns)(k := None) = contents s ns" by (simp add: fun_upd_idem)
    show ?thesis
      apply (rule exI [of _ "RPointer None"])
      apply (rule exI [of _ "s\<lparr>prevNodesCache := preds s k ns\<rparr>"])
      apply (rule exI [of _ ns])
      using OpRemove Remove_absent_correct [OF wf None] wf_cache [OF wf, of "preds s k ns"] id
      by simp
  next
    case (Some a)
    from Remove_found_correct [OF wf Some] obtain s' where
      s': "Remove k s = Some (Inr (Some a, s'))" "wellformed s' (remove1 a ns)"
        "skeleton s' = skeleton (s\<lparr>prevNodesCache := preds s k ns, Length := Length s - 1\<rparr>)"
      by blast
    have c: "contents s' (remove1 a ns) = (contents s ns)(k := None)"
      by (rule contents_Remove [OF wf Some s'(3)])
    have ain: "a \<in> set ns" using lookup_Some [OF Some] by simp
    then have "0 < length ns" by (rule length_pos_if_in_set)
    moreover have "length (remove1 a ns) = length ns - 1" using ain by (simp add: length_remove1)
    ultimately have len: "int (length (remove1 a ns)) = int (length ns) - 1" by linarith
    have ml: "maxLevel s' = maxLevel s" using skeleton_fields(1) [OF s'(3)] by simp
    show ?thesis
      apply (rule exI [of _ "RPointer (Some a)"])
      apply (rule exI [of _ s'])
      apply (rule exI [of _ "remove1 a ns"])
      using OpRemove s'(1,2) c len ml by simp
  qed
next
  case OpFront
  show ?thesis
    apply (rule exI [of _ "RPointer (first ns)"])
    apply (rule exI [of _ s])
    apply (rule exI [of _ ns])
    using OpFront wf Front_correct [OF wf] by simp
next
  case OpLen
  show ?thesis
    apply (rule exI [of _ "RCount (Len s)"])
    apply (rule exI [of _ s])
    apply (rule exI [of _ ns])
    using OpLen wf by simp
next
  case (OpSetProbability p)
  have ml: "maxLevel (SetProbability p s) = maxLevel s" by (simp add: SetProbability_def)
  show ?thesis
    apply (rule exI [of _ RDone])
    apply (rule exI [of _ "SetProbability p s"])
    apply (rule exI [of _ ns])
    using OpSetProbability wf_SetProbability [OF wf, of p] ml by simp
qed

lemma run_wf:
  fixes s :: "('k::linorder, 'v) SkipList"
  shows "wellformed s ns \<Longrightarrow>
    \<exists>rs s' ns'. run cs s = Some (Inr (rs, s')) \<and> length rs = length cs \<and> wellformed s' ns' \<and>
      maxLevel s' = maxLevel s \<and> contents s' ns' = spec_run cs (contents s ns) \<and>
      int (length ns') = int (length ns) + int (fresh_sets cs (contents s ns))
                           - int (successful_removes cs rs)"
proof (induction cs arbitrary: s ns)
  case Nil
  then show ?case by auto
next
  case (Cons c cs)
  from exec_wf [OF Cons.prems, of c] obtain r s1 ns1 where
    e: "exec c s = Some (Inr (r, s1))" "wellformed s1 ns1" "maxLevel s1 = maxLevel s"
      "contents s1 ns1 = spec_apply c (contents s ns)"
      "int (length ns1) = int (length ns) + (if fresh_set c (contents s ns) then 1 else 0)
                          - (if successful_remove c r then 1 else 0)"
    by blast
  from Cons.IH [OF e(2)] obtain rs s' ns' where
    r: "run cs s1 = Some (Inr (rs, s'))" "length rs = length cs" "wellformed s' ns'"
      "maxLevel s' = maxLevel s1" "contents s' ns' = spec_run cs (contents s1 ns1)"
      "int (length ns') = int (length ns1) + int (fresh_sets cs (contents s1 ns1))
                           - int (successful_removes cs rs)"
    by blast
  show ?case
    apply (rule exI [of _ "r # rs"])
    apply (rule exI [of _ s'])
    apply (rule exI [of _ ns'])
    using e r by simp
qed

lemma lookup_cong:
  "\<forall>b\<in>set ns. key (h' ! b) = key (h ! b) \<Longrightarrow> lookup h' k ns = lookup h k ns"
  by (simp add: lookup_def cong: find_cong)

lemma lookup_unique:
  fixes h :: "('k::linorder, 'v) Element list"
  assumes "sorted_wrt (<) (map (\<lambda>a. key (h ! a)) ns)" "a \<in> set ns"
  shows "lookup h (key (h ! a)) ns = Some a"
  using assms
proof (induction ns)
  case Nil
  then show ?case by simp
next
  case (Cons b ns)
  show ?case
  proof (cases "a = b")
    case True
    then show ?thesis by (simp add: lookup_def)
  next
    case False
    then have "a \<in> set ns" using Cons.prems by simp
    moreover from this have "key (h ! b) \<noteq> key (h ! a)" using Cons.prems by auto
    ultimately show ?thesis using Cons by (simp add: lookup_def)
  qed
qed

lemma filter_key_unique:
  fixes h :: "('k::linorder, 'v) Element list"
  assumes "sorted_wrt (<) (map (\<lambda>a. key (h ! a)) ns)" "a \<in> set ns"
  shows "filter (\<lambda>b. key (h ! b) = key (h ! a)) ns = [a]"
  using assms
proof (induction ns)
  case Nil
  then show ?case by simp
next
  case (Cons b ns)
  show ?case
  proof (cases "a = b")
    case True
    then have "\<forall>c\<in>set ns. key (h ! c) \<noteq> key (h ! a)" using Cons.prems by auto
    then show ?thesis using True by simp
  next
    case False
    then have "a \<in> set ns" using Cons.prems by simp
    moreover from this have "key (h ! b) \<noteq> key (h ! a)" using Cons.prems by auto
    ultimately show ?thesis using Cons by simp
  qed
qed

lemma Set_correct:
  fixes s :: "('k::linorder, 'v) SkipList"
  assumes wf: "wellformed s ns"
  shows "\<exists>a s' ns'. Set k v s = Some (Inr (a, s')) \<and> wellformed s' ns' \<and>
     lookup (heap s') k ns' = Some a \<and> key (heap s' ! a) = k \<and> val (heap s' ! a) = v \<and>
     contents s' ns' = (contents s ns)(k \<mapsto> v) \<and>
     (case lookup (heap s) k ns of
        Some b \<Rightarrow> a = b \<and> ns' = ns \<and> Length s' = Length s \<and>
                  heap s' = (heap s)[b := (heap s ! b)\<lparr>val := v\<rparr>]
      | None \<Rightarrow> a = length (heap s) \<and> Length s' = Length s + 1 \<and>
                length (heap s') = Suc (length (heap s)) \<and>
                ns' = below (heap s) k ns @ a # not_below (heap s) k ns)"
proof (cases "lookup (heap s) k ns")
  case None
  let ?a = "length (heap s)"
  let ?ns' = "below (heap s) k ns @ ?a # not_below (heap s) k ns"
  from Set_new_correct [OF wf None, of v] obtain s' where
    s': "Set k v s = Some (Inr (?a, s'))" "wellformed s' ?ns'"
      "length (heap s') = Suc (length (heap s))"
      "key (heap s' ! ?a) = k" "val (heap s' ! ?a) = v"
      "\<forall>b<length (heap s). key (heap s' ! b) = key (heap s ! b) \<and> val (heap s' ! b) = val (heap s ! b) \<and>
          length (nxt (heap s' ! b)) = length (nxt (heap s ! b))"
      "Length s' = Length s + 1"
    by blast
  have c: "contents s' ?ns' = (contents s ns)(k \<mapsto> v)"
    using s'(6) by (intro contents_Set_new [OF wf None _ s'(4,5)]) simp
  have "lookup (heap s') (key (heap s' ! ?a)) ?ns' = Some ?a"
    by (rule lookup_unique [OF wf_sorted [OF s'(2)]]) simp
  then have lk: "lookup (heap s') k ?ns' = Some ?a" using s'(4) by simp
  show ?thesis
    apply (rule exI [of _ ?a])
    apply (rule exI [of _ s'])
    apply (rule exI [of _ ?ns'])
    using None s' c lk by simp
next
  case (Some a)
  let ?s' = "s\<lparr>prevNodesCache := preds s k ns, heap := (heap s)[a := (heap s ! a)\<lparr>val := v\<rparr>]\<rparr>"
  have a: "a \<in> set ns" "key (heap s ! a) = k" using lookup_Some [OF Some] by simp_all
  then have al: "a < length (heap s)" using wf_valid [OF wf] by simp
  have "lookup (heap ?s') k ns = lookup (heap s) k ns"
    using al by (intro lookup_cong) (simp add: nth_list_update)
  then have lk: "lookup (heap ?s') k ns = Some a" using Some by simp
  have kv: "key (heap ?s' ! a) = k" "val (heap ?s' ! a) = v" using al a by simp_all
  show ?thesis
    apply (rule exI [of _ a])
    apply (rule exI [of _ ?s'])
    apply (rule exI [of _ ns])
    using Some Set_update_correct [OF wf Some, of v] contents_Set_update [OF wf Some, where v = v]
      lk kv by simp
qed


lemma probabilityTable_nth:
  "0 \<le> M \<Longrightarrow> i < nat M \<Longrightarrow> probabilityTable p M ! i = p ^ i"
  by (simp add: probabilityTable_def)

lemma example_wellformed: "wellformed example_list [1, 0, 2]"
  by (simp add: wellformed_def example_list_def level_nodes_def height_def upt_conv_Cons)

lemmas eval_simps =
  Set_def Get_def Remove_def getPrevElementNodes_def load_next_def store_next_def index_def
  elem_at_def Set_insert_def randLevel_def randLevel_loop.simps advance.simps upt_conv_Cons
  Len_def Front_def

lemma fresh1_New: "NewWithMaxLevel 1 (sconst 0) = Inr fresh1"
  by (simp add: NewWithMaxLevel_def fresh1_def DefaultProbability_def probabilityTable_def upto.simps)


lemma present_lookup:
  fixes s :: "('k::linorder, 'v) SkipList"
  assumes wf: "wellformed s ns"
  shows "(\<exists>b\<in>set ns. key (heap s ! b) = k) \<longleftrightarrow> (\<exists>a. lookup (heap s) k ns = Some a)"
  using lookup_None_iff [of "heap s" k ns] by (cases "lookup (heap s) k ns") auto

lemma two_list_reachable:
  "run [OpSet 1 ''a'', OpSet 2 ''b''] fresh1
     = Some (Inr ([RPointer (Some 0), RPointer (Some 1)], two_list))"
  by (simp add: fresh1_def two_list_def eval_simps)

lemma Next_in_list:
  fixes s :: "('k::linorder, 'v) SkipList"
  assumes wf: "wellformed s ns" and a: "a \<in> set ns"
  shows "Next (heap s) (Some a) = Inr (successor ns a)"
proof -
  from a obtain lo rest where sp: "ns = lo @ a # rest" "a \<notin> set lo"
    by (meson split_list_first)
  have "chain (heap s) 0 (nxt s ! 0) (lo @ a # rest)"
    using wf_chain [OF wf, of 0] wf_fields(1) [OF wf] level0 [OF wf, of ns] sp(1) by simp
  from chain_suffix [OF this]
  have v: "a < length (heap s)" "0 < length (nxt (heap s ! a))"
    and ch: "chain (heap s) 0 (nxt (heap s ! a) ! 0) rest" by simp_all
  have "dropWhile (\<lambda>b. b \<noteq> a) (lo @ a # rest) = a # rest"
    using sp(2) by (auto simp: dropWhile_append3)
  then have "successor ns a = first rest" by (simp add: successor_def sp(1))
  then show ?thesis
    using v chain_first [OF ch] by (simp add: Next_def elem_at_def index_def)
qed

text \<open>
  The concrete scenario of the specification, run on the model: the count is 3,
  \<^verbatim>\<open>Get(5)\<close> finds the value \<^verbatim>\<open>"z"\<close>, the walk visits the keys 2, 5, 8;
  \<^verbatim>\<open>Remove(2)\<close> returns the entry with \<^verbatim>\<open>"b"\<close>, after which the walk visits 5, 8
  and \<^verbatim>\<open>Get(2)\<close> finds nothing.
\<close>

lemma fresh2_New: "NewWithMaxLevel 2 (sconst 0) = Inr fresh2"
  by (simp add: NewWithMaxLevel_def fresh2_def DefaultProbability_def probabilityTable_def
      upto.simps numeral_2_eq_2)

lemma spec_scenario:
  "run [OpSet 5 ''a'', OpSet 2 ''b'', OpSet 8 ''c'', OpSet 5 ''z''] fresh2
     = Some (Inr ([RPointer (Some 0), RPointer (Some 1), RPointer (Some 2), RPointer (Some 0)],
                  scenario_list))"
  by (simp add: fresh2_def scenario_list_def eval_simps numeral_2_eq_2)

lemma spec_scenario_reads:
  "Len scenario_list = 3"
  "Get 5 scenario_list = Some (Inr (Some 0))" "Value (heap scenario_list) (Some 0) = Inr ''z''"
  "in_order scenario_list = Some (Inr [1, 0, 2])"
  "map (\<lambda>a. key (heap scenario_list ! a)) [1, 0, 2] = [2, 5, 8]"
  by (simp_all add: scenario_list_def eval_simps Value_def in_order_def walk.simps Next_def
      numeral_2_eq_2)

lemma spec_scenario_remove:
  "Remove 2 scenario_list
     = Some (Inr (Some 1, scenario_list\<lparr>nxt := [Some 0, Some 0], Length := 2,
                                        prevNodesCache := [Some Header, Some Header]\<rparr>))"
  "Value (heap scenario_list) (Some 1) = Inr ''b''"
  "in_order (scenario_list\<lparr>nxt := [Some 0, Some 0], Length := 2,
                            prevNodesCache := [Some Header, Some Header]\<rparr>) = Some (Inr [0, 2])"
  "map (\<lambda>a. key (heap scenario_list ! a)) [0, 2] = [5, 8]"
  "Get 2 (scenario_list\<lparr>nxt := [Some 0, Some 0], Length := 2,
                         prevNodesCache := [Some Header, Some Header]\<rparr>) = Some (Inr None)"
  by (simp_all add: scenario_list_def eval_simps Value_def in_order_def walk.simps Next_def
      numeral_2_eq_2)





section \<open>Claims\<close>

text \<open>
  C1. After any sequence of calls on a fresh list (whatever its \<open>maxLevel\<close> from 1 to 64
  and whatever the random source draws), the walk from \<^verbatim>\<open>Front()\<close> along
  \<^verbatim>\<open>Next()\<close> returns, visits no element twice, its keys are strictly increasing, and
  the entries it visits are exactly the entries of the specification's map after the
  same calls: level 0 is the complete sorted sequence of the live entries.
\<close>

theorem in_order_walk_sorted:
  fixes cs :: "('k::linorder, 'v) operation list"
  assumes "1 \<le> m" "m \<le> 64"
  shows "\<exists>s0 rs s ns. NewWithMaxLevel m seed = Inr s0 \<and> run cs s0 = Some (Inr (rs, s)) \<and>
     in_order s = Some (Inr ns) \<and> distinct ns \<and>
     sorted_wrt (<) (map (\<lambda>a. key (heap s ! a)) ns) \<and>
     map_of (entries (heap s) ns) = spec_run cs Map.empty"
proof -
  from wf_New [OF assms, of seed] obtain s0 :: "('k, 'v) SkipList" where
    s0: "NewWithMaxLevel m seed = Inr s0" "wellformed s0 []" "contents s0 [] = Map.empty" by blast
  from run_wf [OF s0(2), of cs] obtain rs s ns where
    s: "run cs s0 = Some (Inr (rs, s))" "wellformed s ns"
      "contents s ns = spec_run cs (contents s0 [])" by blast
  show ?thesis
    apply (rule exI [of _ s0])
    apply (rule exI [of _ rs])
    apply (rule exI [of _ s])
    apply (rule exI [of _ ns])
    using s0 s in_order_correct [OF s(2)] wf_distinct [OF s(2)] wf_sorted [OF s(2)]
    by (simp add: contents_def)
qed

theorem in_order_walk_sorted_witness:
  "\<exists>s0 rs s ns. NewWithMaxLevel 3 (sconst 0) = Inr s0 \<and>
     run [OpSet (5::int) ''a'', OpSet 2 ''b'', OpSet 8 ''c'', OpSet 5 ''z'', OpRemove 2] s0
       = Some (Inr (rs, s)) \<and>
     in_order s = Some (Inr ns) \<and> distinct ns \<and>
     sorted_wrt (<) (map (\<lambda>a. key (heap s ! a)) ns) \<and>
     map_of (entries (heap s) ns) = [5 \<mapsto> ''z'', 8 \<mapsto> ''c'']"
proof -
  have "[(5::int) \<mapsto> ''a'', 2 \<mapsto> ''b'', 8 \<mapsto> ''c'', 5 \<mapsto> ''z''](2 := None)
      = [5 \<mapsto> ''z'', 8 \<mapsto> ''c'']"
    by (auto simp: fun_eq_iff)
  then show ?thesis
    using in_order_walk_sorted [where m = 3 and seed = "sconst 0" and
      cs = "[OpSet (5::int) ''a'', OpSet 2 ''b'', OpSet 8 ''c'', OpSet 5 ''z'', OpRemove 2]"]
    by simp
qed



text \<open>
  C3. On a well-formed list, \<^verbatim>\<open>Set(k, v)\<close> returns an element \<open>a\<close> and leaves the list
  well formed. If an element with key \<open>k\<close> exists, \<open>a\<close> is that element, its value is
  replaced in place and nothing else changes but the traversal cache: no element is
  allocated, the links and the count are as before. If no element has key \<open>k\<close>, \<open>a\<close> is
  a newly allocated element and the count grows by one; in particular, a candidate
  \<^verbatim>\<open>prevs[0].next[0]\<close> whose key is above \<open>k\<close> leads to the insertion. In both cases,
  afterwards \<open>a\<close> is the only element of the list with key \<open>k\<close>, and its value is \<open>v\<close>.
\<close>

theorem Set_update_iff_present:
  fixes s :: "('k::linorder, 'v) SkipList"
  assumes wf: "wellformed s ns"
  shows "\<exists>a s' ns'. Set k v s = Some (Inr (a, s')) \<and> wellformed s' ns' \<and>
     ((\<exists>b\<in>set ns. key (heap s ! b) = k) \<longrightarrow>
        a \<in> set ns \<and> key (heap s ! a) = k \<and> ns' = ns \<and>
        (\<exists>c. s' = s\<lparr>prevNodesCache := c, heap := (heap s)[a := (heap s ! a)\<lparr>val := v\<rparr>]\<rparr>) \<and>
        length (heap s') = length (heap s) \<and> Len s' = Len s) \<and>
     ((\<forall>b\<in>set ns. key (heap s ! b) \<noteq> k) \<longrightarrow>
        a = length (heap s) \<and> length (heap s') = Suc (length (heap s)) \<and>
        Len s' = Len s + 1 \<and> set ns' = insert a (set ns)) \<and>
     (\<forall>prevs s1 p c. getPrevElementNodes k s = Some (Inr (prevs, s1)) \<and> index prevs 0 = Inr p \<and>
        load_next s1 p 0 = Inr (Some c) \<and> k < key (heap s ! c) \<longrightarrow>
        a = length (heap s) \<and> length (heap s') = Suc (length (heap s)) \<and> Len s' = Len s + 1) \<and>
     filter (\<lambda>b. key (heap s' ! b) = k) ns' = [a] \<and> val (heap s' ! a) = v"
proof -
  from Set_correct [OF wf, of k v] obtain a s' ns' where
    r: "Set k v s = Some (Inr (a, s'))" "wellformed s' ns'"
      "lookup (heap s') k ns' = Some a" "key (heap s' ! a) = k" "val (heap s' ! a) = v"
    and cs: "case lookup (heap s) k ns of
        Some b \<Rightarrow> a = b \<and> ns' = ns \<and> Length s' = Length s \<and>
                  heap s' = (heap s)[b := (heap s ! b)\<lparr>val := v\<rparr>]
      | None \<Rightarrow> a = length (heap s) \<and> Length s' = Length s + 1 \<and>
                length (heap s') = Suc (length (heap s)) \<and>
                ns' = below (heap s) k ns @ a # not_below (heap s) k ns"
    by blast
  have one: "filter (\<lambda>b. key (heap s' ! b) = k) ns' = [a]"
    using filter_key_unique [OF wf_sorted [OF r(2)], of a] lookup_Some [OF r(3)] by simp
  have present: "a \<in> set ns \<and> key (heap s ! a) = k \<and> ns' = ns \<and>
        (\<exists>c. s' = s\<lparr>prevNodesCache := c, heap := (heap s)[a := (heap s ! a)\<lparr>val := v\<rparr>]\<rparr>) \<and>
        length (heap s') = length (heap s) \<and> Len s' = Len s"
    if "\<exists>b\<in>set ns. key (heap s ! b) = k"
  proof -
    from that obtain b where b: "lookup (heap s) k ns = Some b"
      using present_lookup [OF wf, of k] by blast
    then have ab: "a = b" "ns' = ns" using cs by simp_all
    have "Set k v s = Some (Inr (b, s\<lparr>prevNodesCache := preds s k ns,
                                    heap := (heap s)[b := (heap s ! b)\<lparr>val := v\<rparr>]\<rparr>))"
      by (rule Set_update_correct(1) [OF wf b])
    then have "s' = s\<lparr>prevNodesCache := preds s k ns, heap := (heap s)[a := (heap s ! a)\<lparr>val := v\<rparr>]\<rparr>"
      using r(1) ab by simp
    then show ?thesis using lookup_Some [OF b] ab by (auto simp: Len_def)
  qed
  have absent: "a = length (heap s) \<and> length (heap s') = Suc (length (heap s)) \<and>
        Len s' = Len s + 1 \<and> set ns' = insert a (set ns)"
    if "lookup (heap s) k ns = None"
  proof -
    have "set (below (heap s) k ns) \<union> set (not_below (heap s) k ns) = set ns"
      by (auto simp: below_def not_below_def)
    then show ?thesis using that cs by (auto simp: Len_def)
  qed
  have above: "a = length (heap s) \<and> length (heap s') = Suc (length (heap s)) \<and> Len s' = Len s + 1"
    if "getPrevElementNodes k s = Some (Inr (prevs, s1)) \<and> index prevs 0 = Inr p \<and>
        load_next s1 p 0 = Inr (Some c) \<and> k < key (heap s ! c)" for prevs s1 p c
  proof -
    have "first (not_below (heap s) k ns) = Some c"
      using that getPrevElementNodes_correct [OF wf, of k] candidate [OF wf, of k] by auto
    then have "lookup (heap s) k ns = None"
      using that lookup_not_below [OF wf_sorted [OF wf], of k] by auto
    then show ?thesis using absent by simp
  qed
  show ?thesis
    apply (rule exI [of _ a])
    apply (rule exI [of _ s'])
    apply (rule exI [of _ ns'])
    using r one present absent above by (simp add: lookup_None_iff) blast
qed

theorem Set_update_iff_present_witness:
  "(\<exists>a s' ns'. Set 5 ''q'' example_list = Some (Inr (a, s')) \<and> wellformed s' ns' \<and>
       ns' = [1, 0, 2] \<and> length (heap s') = 3 \<and> Len s' = 3 \<and>
       filter (\<lambda>b. key (heap s' ! b) = 5) ns' = [a] \<and> val (heap s' ! a) = ''q'') \<and>
   (\<exists>a s' ns'. Set 6 ''q'' example_list = Some (Inr (a, s')) \<and> wellformed s' ns' \<and>
       a = 3 \<and> length (heap s') = 4 \<and> Len s' = 4 \<and>
       filter (\<lambda>b. key (heap s' ! b) = 6) ns' = [a] \<and> val (heap s' ! a) = ''q'')"
proof -
  have p5: "\<exists>b\<in>set [1, 0, 2]. key (heap example_list ! b) = 5"
    and p6: "\<forall>b\<in>set [1, 0, 2]. key (heap example_list ! b) \<noteq> 6"
    and l: "length (heap example_list) = 3" "Len example_list = 3"
    by (simp_all add: example_list_def Len_def)
  from Set_update_iff_present [OF example_wellformed, of 5 "''q''"] obtain a s' ns' where
    r: "Set 5 ''q'' example_list = Some (Inr (a, s'))" "wellformed s' ns'"
      "(\<exists>b\<in>set [1, 0, 2]. key (heap example_list ! b) = 5) \<longrightarrow>
         ns' = [1, 0, 2] \<and> length (heap s') = length (heap example_list) \<and> Len s' = Len example_list"
      "filter (\<lambda>b. key (heap s' ! b) = 5) ns' = [a]" "val (heap s' ! a) = ''q''"
    by blast
  from r(3) p5 have "ns' = [1, 0, 2] \<and> length (heap s') = length (heap example_list) \<and>
      Len s' = Len example_list" by blast
  then have "ns' = [1, 0, 2] \<and> length (heap s') = 3 \<and> Len s' = 3" using l by simp
  with r(1,2,4,5)
  have one: "\<exists>a s' ns'. Set 5 ''q'' example_list = Some (Inr (a, s')) \<and> wellformed s' ns' \<and>
       ns' = [1, 0, 2] \<and> length (heap s') = 3 \<and> Len s' = 3 \<and>
       filter (\<lambda>b. key (heap s' ! b) = 5) ns' = [a] \<and> val (heap s' ! a) = ''q''"
    by blast
  from Set_update_iff_present [OF example_wellformed, of 6 "''q''"] obtain a s' ns' where
    r: "Set 6 ''q'' example_list = Some (Inr (a, s'))" "wellformed s' ns'"
      "(\<forall>b\<in>set [1, 0, 2]. key (heap example_list ! b) \<noteq> 6) \<longrightarrow>
         a = length (heap example_list) \<and> length (heap s') = Suc (length (heap example_list)) \<and>
         Len s' = Len example_list + 1"
      "filter (\<lambda>b. key (heap s' ! b) = 6) ns' = [a]" "val (heap s' ! a) = ''q''"
    by blast
  from r(3) p6 have "a = length (heap example_list) \<and>
      length (heap s') = Suc (length (heap example_list)) \<and> Len s' = Len example_list + 1"
    by blast
  then have "a = 3 \<and> length (heap s') = 4 \<and> Len s' = 4" using l by simp
  with r(1,2,4,5)
  have two: "\<exists>a s' ns'. Set 6 ''q'' example_list = Some (Inr (a, s')) \<and> wellformed s' ns' \<and>
       a = 3 \<and> length (heap s') = 4 \<and> Len s' = 4 \<and>
       filter (\<lambda>b. key (heap s' ! b) = 6) ns' = [a] \<and> val (heap s' ! a) = ''q''"
    by blast
  from one two show ?thesis by blast
qed

text \<open>
  C4. On a well-formed list, \<^verbatim>\<open>Set(k, v)\<close> returns an element \<open>a\<close>; \<^verbatim>\<open>Get(k)\<close> right
  after it returns \<open>a\<close>, which is not nil and whose key is \<open>k\<close> and value \<open>v\<close>;
  \<^verbatim>\<open>Remove(k)\<close> after the \<open>Set\<close> returns \<open>a\<close>, and \<^verbatim>\<open>Get(k)\<close> after that returns nil.
\<close>

theorem Set_Get_Remove_roundtrip:
  fixes s :: "('k::linorder, 'v) SkipList"
  assumes wf: "wellformed s ns"
  shows "\<exists>a s1. Set k v s = Some (Inr (a, s1)) \<and>
     Get k s1 = Some (Inr (Some a)) \<and>
     Key (heap s1) (Some a) = Inr k \<and> Value (heap s1) (Some a) = Inr v \<and>
     (\<exists>s2. Remove k s1 = Some (Inr (Some a, s2)) \<and> Get k s2 = Some (Inr None))"
proof -
  from Set_correct [OF wf, of k v] obtain a s1 ns1 where
    r: "Set k v s = Some (Inr (a, s1))" "wellformed s1 ns1"
      "lookup (heap s1) k ns1 = Some a" "key (heap s1 ! a) = k" "val (heap s1 ! a) = v"
    by blast
  have a: "a < length (heap s1)" using wf_valid [OF r(2)] lookup_Some [OF r(3)] by simp
  have g1: "Get k s1 = Some (Inr (Some a))" using Get_correct [OF r(2), of k] r(3) by simp
  have kv: "Key (heap s1) (Some a) = Inr k" "Value (heap s1) (Some a) = Inr v"
    using a r(4,5) by (simp_all add: Key_def Value_def elem_at_def)
  from Remove_found_correct [OF r(2,3)] obtain s2 where
    s2: "Remove k s1 = Some (Inr (Some a, s2))" "wellformed s2 (remove1 a ns1)"
      "skeleton s2 = skeleton (s1\<lparr>prevNodesCache := preds s1 k ns1, Length := Length s1 - 1\<rparr>)"
    by blast
  have "contents s2 (remove1 a ns1) = (contents s1 ns1)(k := None)"
    by (rule contents_Remove [OF r(2,3) s2(3)])
  then have "contents s2 (remove1 a ns1) k = None" by simp
  then have "lookup (heap s2) k (remove1 a ns1) = None" by (simp add: contents_None_iff)
  then have g2: "Get k s2 = Some (Inr None)" using Get_correct [OF s2(2), of k] by simp
  show ?thesis
    apply (rule exI [of _ a])
    apply (rule exI [of _ s1])
    using r(1) g1 kv s2(1) g2 by simp
qed

theorem Set_Get_Remove_roundtrip_witness:
  "\<exists>a s1. Set 6 ''q'' example_list = Some (Inr (a, s1)) \<and>
     Get 6 s1 = Some (Inr (Some a)) \<and>
     Key (heap s1) (Some a) = Inr 6 \<and> Value (heap s1) (Some a) = Inr ''q'' \<and>
     (\<exists>s2. Remove 6 s1 = Some (Inr (Some a, s2)) \<and> Get 6 s2 = Some (Inr None))"
  using Set_Get_Remove_roundtrip [OF example_wellformed, of 6 "''q''"] .

text \<open>
  C5. On a well-formed list, for a key \<open>k\<close> that no element of the list has,
  \<^verbatim>\<open>Remove(k)\<close> returns nil and the list it leaves differs from the one it found in the
  traversal cache only: the elements, the forward pointers of the header and of every
  element, and \<^verbatim>\<open>Len()\<close> are the same.
\<close>

theorem Remove_absent_no_change:
  fixes s :: "('k::linorder, 'v) SkipList"
  assumes wf: "wellformed s ns" and absent: "\<forall>b\<in>set ns. key (heap s ! b) \<noteq> k"
  shows "\<exists>c. Remove k s = Some (Inr (None, s\<lparr>prevNodesCache := c\<rparr>)) \<and>
     heap (s\<lparr>prevNodesCache := c\<rparr>) = heap s \<and> nxt (s\<lparr>prevNodesCache := c\<rparr>) = nxt s \<and>
     Len (s\<lparr>prevNodesCache := c\<rparr>) = Len s \<and>
     in_order (s\<lparr>prevNodesCache := c\<rparr>) = in_order s \<and>
     wellformed (s\<lparr>prevNodesCache := c\<rparr>) ns"
proof -
  have "lookup (heap s) k ns = None" using absent by (simp add: lookup_None_iff)
  from Remove_absent_correct [OF wf this]
  show ?thesis
    using wf_cache [OF wf, of "preds s k ns"]
    by (intro exI [of _ "preds s k ns"])
       (simp add: Len_def in_order_def Front_def split: sum.split)
qed

theorem Remove_absent_no_change_witness:
  "\<exists>c. Remove 6 example_list = Some (Inr (None, example_list\<lparr>prevNodesCache := c\<rparr>)) \<and>
     heap (example_list\<lparr>prevNodesCache := c\<rparr>) = heap example_list \<and>
     nxt (example_list\<lparr>prevNodesCache := c\<rparr>) = nxt example_list \<and>
     Len (example_list\<lparr>prevNodesCache := c\<rparr>) = 3"
proof -
  have "\<forall>b\<in>set [1, 0, 2]. key (heap example_list ! b) \<noteq> 6"
    by (simp add: example_list_def)
  from Remove_absent_no_change [OF example_wellformed this]
  show ?thesis by (auto simp: Len_def example_list_def)
qed

text \<open>
  C6, as the code has it. After any sequence of calls on a fresh list, \<^verbatim>\<open>Len()\<close> is the
  number of elements on the walk from \<^verbatim>\<open>Front()\<close>, and it is the number of \<open>Set\<close>
  calls whose key was not in the list at that moment minus the number of \<open>Remove\<close>
  calls that returned an element.
\<close>

theorem Len_counts:
  fixes cs :: "('k::linorder, 'v) operation list"
  assumes "1 \<le> m" "m \<le> 64"
  shows "\<exists>s0 rs s ns. NewWithMaxLevel m seed = Inr s0 \<and> run cs s0 = Some (Inr (rs, s)) \<and>
     in_order s = Some (Inr ns) \<and> Len s = int (length ns) \<and>
     Len s = int (fresh_sets cs Map.empty) - int (successful_removes cs rs)"
proof -
  from wf_New [OF assms, of seed] obtain s0 :: "('k, 'v) SkipList" where
    s0: "NewWithMaxLevel m seed = Inr s0" "wellformed s0 []" "contents s0 [] = Map.empty" by blast
  from run_wf [OF s0(2), of cs] obtain rs s ns where
    s: "run cs s0 = Some (Inr (rs, s))" "wellformed s ns"
      "int (length ns) = int (length ([]::addr list)) + int (fresh_sets cs (contents s0 []))
                           - int (successful_removes cs rs)" by blast
  show ?thesis
    apply (rule exI [of _ s0])
    apply (rule exI [of _ rs])
    apply (rule exI [of _ s])
    apply (rule exI [of _ ns])
    using s0 s in_order_correct [OF s(2)] wf_fields(6) [OF s(2)]
    by (simp add: Len_def)
qed

theorem Len_counts_witness:
  "\<exists>s0 rs s ns. NewWithMaxLevel 1 (sconst 0) = Inr s0 \<and> run reinsert_ops s0 = Some (Inr (rs, s)) \<and>
     in_order s = Some (Inr ns) \<and> Len s = int (length ns) \<and>
     Len s = 2 - int (successful_removes reinsert_ops rs)"
  using Len_counts [where m = 1 and seed = "sconst 0" and cs = reinsert_ops]
  by (simp add: reinsert_ops_def)

text \<open>
  C6, as the claim states it, fails when a key is set again after its removal:
  \<^verbatim>\<open>Set(1, "a"); Remove(1); Set(1, "b")\<close> on a fresh list of \<open>maxLevel\<close> 1 leaves one
  entry, so \<^verbatim>\<open>Len()\<close> is 1, while one distinct key was ever passed to \<open>Set\<close> and one
  \<open>Remove\<close> succeeded, a difference of 0.
\<close>

theorem Len_distinct_keys_counterexample:
  "NewWithMaxLevel 1 (sconst 0) = Inr fresh1 \<and>
   run reinsert_ops fresh1
     = Some (Inr ([RPointer (Some 0), RPointer (Some 0), RPointer (Some 1)], reinserted)) \<and>
   Len reinserted = 1 \<and>
   int (distinct_set_keys reinsert_ops)
     - int (successful_removes reinsert_ops [RPointer (Some 0), RPointer (Some 0), RPointer (Some 1)]) = 0"
proof -
  have "run reinsert_ops fresh1
     = Some (Inr ([RPointer (Some 0), RPointer (Some 0), RPointer (Some 1)], reinserted))"
    by (simp add: reinsert_ops_def fresh1_def reinserted_def eval_simps)
  moreover have "Len reinserted = 1" by (simp add: Len_def reinserted_def)
  moreover have "int (distinct_set_keys reinsert_ops)
     - int (successful_removes reinsert_ops [RPointer (Some 0), RPointer (Some 0), RPointer (Some 1)]) = 0"
    by (simp add: distinct_set_keys_def set_keys_def reinsert_ops_def)
  ultimately show ?thesis using fresh1_New by simp
qed

text \<open>
  C7. On a list whose \<open>maxLevel\<close> is between 1 and 64 and whose probability table has
  \<open>maxLevel\<close> entries (the constructor and \<^verbatim>\<open>SetProbability\<close> build no other), whatever
  the entries and whatever the random source draws, \<^verbatim>\<open>randLevel\<close> returns a height
  between 1 and \<open>maxLevel\<close>. Hence, after any sequence of calls on a fresh list, every
  element that was ever allocated has between 1 and \<open>maxLevel\<close> forward pointers.
\<close>

theorem randLevel_in_range:
  fixes s :: "('k::linorder, 'v) SkipList" and cs :: "('k, 'v) operation list"
  shows "(1 \<le> maxLevel s \<and> maxLevel s \<le> 64 \<and> length (probTable s) = nat (maxLevel s) \<longrightarrow>
      (\<exists>l s'. randLevel s = Inr (l, s') \<and> 1 \<le> l \<and> l \<le> maxLevel s)) \<and>
    (1 \<le> m \<and> m \<le> 64 \<longrightarrow>
      (\<exists>s0 rs t. NewWithMaxLevel m seed = Inr s0 \<and> run cs s0 = Some (Inr (rs, t)) \<and>
         maxLevel t = m \<and>
         (\<forall>e\<in>set (heap t). 1 \<le> length (nxt e) \<and> int (length (nxt e)) \<le> m)))"
proof (intro conjI impI)
  assume "1 \<le> maxLevel s \<and> maxLevel s \<le> 64 \<and> length (probTable s) = nat (maxLevel s)"
  then show "\<exists>l s'. randLevel s = Inr (l, s') \<and> 1 \<le> l \<and> l \<le> maxLevel s"
    using randLevel_bounds [of s] by blast
next
  assume m: "1 \<le> m \<and> m \<le> 64"
  from wf_New [of m seed] m obtain s0 :: "('k, 'v) SkipList" where
    s0: "NewWithMaxLevel m seed = Inr s0" "wellformed s0 []" "maxLevel s0 = m" by blast
  from run_wf [OF s0(2), of cs] obtain rs t ns where
    t: "run cs s0 = Some (Inr (rs, t))" "wellformed t ns" "maxLevel t = maxLevel s0" by blast
  have "\<forall>e\<in>set (heap t). 1 \<le> length (nxt e) \<and> int (length (nxt e)) \<le> m"
    using t(2,3) s0(3) m by (auto simp: wellformed_def list_all_iff)
  then show "\<exists>s0 rs t. NewWithMaxLevel m seed = Inr s0 \<and> run cs s0 = Some (Inr (rs, t)) \<and>
         maxLevel t = m \<and>
         (\<forall>e\<in>set (heap t). 1 \<le> length (nxt e) \<and> int (length (nxt e)) \<le> m)"
    using s0 t by auto
qed

theorem randLevel_in_range_witness:
  "(\<exists>l s'. randLevel example_list = Inr (l, s') \<and> 1 \<le> l \<and> l \<le> 3) \<and>
   (\<exists>s0 rs t. NewWithMaxLevel 3 (sconst 0) = Inr s0 \<and>
      run [OpSet (5::int) ''a'', OpSet 2 ''b'', OpRemove 5, OpSet 8 ''c''] s0 = Some (Inr (rs, t)) \<and>
      maxLevel t = 3 \<and>
      list_all (\<lambda>e. 1 \<le> length (nxt e) \<and> int (length (nxt e)) \<le> 3) (heap t))"
  using randLevel_in_range [of example_list 3 "sconst 0"
      "[OpSet (5::int) ''a'', OpSet 2 ''b'', OpRemove 5, OpSet 8 ''c'']"]
  by (simp add: example_list_def list_all_iff)

text \<open>
  C8. \<^verbatim>\<open>NewWithMaxLevel(maxLevel)\<close> panics, and so returns no list, for every
  \<open>maxLevel\<close> below 1 or above 64: the value is not clamped. For every \<open>maxLevel\<close> from
  1 to 64 it returns a list with exactly that \<open>maxLevel\<close>, probability \<open>1/e\<close>, a
  probability table of \<open>maxLevel\<close> entries (entry \<open>i\<close> is \<open>(1/e)^i\<close>), a header of
  \<open>maxLevel\<close> forward pointers, all nil, a traversal cache of \<open>maxLevel\<close> slots, no
  element and the count 0. \<^verbatim>\<open>New()\<close> is \<^verbatim>\<open>NewWithMaxLevel(18)\<close>.
\<close>

theorem NewWithMaxLevel_contract:
  fixes m :: int and rs :: "int stream"
  shows "(m < 1 \<or> 64 < m \<longrightarrow> (NewWithMaxLevel m rs :: panic + ('k, 'v) SkipList) = Inl MaxLevelPanic) \<and>
    (1 \<le> m \<and> m \<le> 64 \<longrightarrow>
       (\<exists>s :: ('k, 'v) SkipList. NewWithMaxLevel m rs = Inr s \<and>
          maxLevel s = m \<and> probability s = 1 / exp 1 \<and>
          length (probTable s) = nat m \<and> (\<forall>i<nat m. probTable s ! i = (1 / exp 1) ^ i) \<and>
          nxt s = replicate (nat m) None \<and> length (prevNodesCache s) = nat m \<and>
          heap s = [] \<and> Length s = 0 \<and> randSource s = rs)) \<and>
    (New rs :: panic + ('k, 'v) SkipList) = NewWithMaxLevel 18 rs"
  by (simp add: NewWithMaxLevel_def New_def DefaultMaxLevel_def DefaultProbability_def
      probabilityTable_length probabilityTable_nth)

theorem NewWithMaxLevel_contract_witness:
  "(NewWithMaxLevel 0 (sconst 0) :: panic + (int, string) SkipList) = Inl MaxLevelPanic \<and>
   (NewWithMaxLevel 65 (sconst 0) :: panic + (int, string) SkipList) = Inl MaxLevelPanic \<and>
   (\<exists>s :: (int, string) SkipList. NewWithMaxLevel 18 (sconst 0) = Inr s \<and>
      maxLevel s = 18 \<and> probability s = 1 / exp 1 \<and> length (probTable s) = 18 \<and>
      nxt s = replicate 18 None \<and> heap s = [] \<and> Length s = 0) \<and>
   (New (sconst 0) :: panic + (int, string) SkipList) = NewWithMaxLevel 18 (sconst 0)"
  using NewWithMaxLevel_contract [of 0 "sconst 0", where ?'k = int and ?'v = string]
    NewWithMaxLevel_contract [of 65 "sconst 0", where ?'k = int and ?'v = string]
    NewWithMaxLevel_contract [of 18 "sconst 0", where ?'k = int and ?'v = string]
  by auto

text \<open>
  C9. No call panics, and every call returns, on any state reached from a fresh list by
  any sequence of \<^verbatim>\<open>Set\<close>, \<^verbatim>\<open>Get\<close>, \<^verbatim>\<open>Remove\<close>, \<^verbatim>\<open>Front\<close>, \<^verbatim>\<open>Len\<close> and
  \<^verbatim>\<open>SetProbability\<close> calls: the run yields a result for every call. The reached state is
  well formed, which contains the reasons: the header has \<open>maxLevel\<close> forward pointers,
  the probability table and the traversal cache have \<open>maxLevel\<close> entries, every element
  ever allocated has between 1 and \<open>maxLevel\<close> forward pointers, and for every level
  \<open>i\<close> below \<open>maxLevel\<close> the chain linked from the header at level \<open>i\<close> ends in nil and
  holds only allocated elements with more than \<open>i\<close> forward pointers.
\<close>

theorem no_panic:
  fixes cs :: "('k::linorder, 'v) operation list"
  assumes "1 \<le> m" "m \<le> 64"
  shows "\<exists>s0 rs s ns. NewWithMaxLevel m seed = Inr s0 \<and> run cs s0 = Some (Inr (rs, s)) \<and>
     length rs = length cs \<and> wellformed s ns \<and>
     length (nxt s) = nat (maxLevel s) \<and> length (probTable s) = nat (maxLevel s) \<and>
     length (prevNodesCache s) = nat (maxLevel s) \<and>
     (\<forall>e\<in>set (heap s). 1 \<le> length (nxt e) \<and> length (nxt e) \<le> nat (maxLevel s)) \<and>
     (\<forall>i<nat (maxLevel s). \<exists>xs. chain (heap s) i (nxt s ! i) xs \<and>
        (\<forall>a\<in>set xs. a < length (heap s) \<and> i < length (nxt (heap s ! a))))"
proof -
  from wf_New [OF assms, of seed] obtain s0 :: "('k, 'v) SkipList" where
    s0: "NewWithMaxLevel m seed = Inr s0" "wellformed s0 []" by blast
  from run_wf [OF s0(2), of cs] obtain rs s ns where
    s: "run cs s0 = Some (Inr (rs, s))" "length rs = length cs" "wellformed s ns" by blast
  have hts: "\<forall>e\<in>set (heap s). 1 \<le> length (nxt e) \<and> length (nxt e) \<le> nat (maxLevel s)"
    using s(3) by (simp add: wellformed_def list_all_iff)
  have chs: "\<forall>i<nat (maxLevel s). \<exists>xs. chain (heap s) i (nxt s ! i) xs \<and>
        (\<forall>a\<in>set xs. a < length (heap s) \<and> i < length (nxt (heap s ! a)))"
  proof (intro allI impI)
    fix i assume "i < nat (maxLevel s)"
    from wf_chain [OF s(3) this] show "\<exists>xs. chain (heap s) i (nxt s ! i) xs \<and>
        (\<forall>a\<in>set xs. a < length (heap s) \<and> i < length (nxt (heap s ! a)))"
      using chain_valid by blast
  qed
  show ?thesis
    apply (rule exI [of _ s0])
    apply (rule exI [of _ rs])
    apply (rule exI [of _ s])
    apply (rule exI [of _ ns])
    using s0 s wf_fields(3,4,5) [OF s(3)] hts chs by simp
qed

theorem no_panic_witness:
  "\<exists>s0 rs s ns. NewWithMaxLevel 18 (sconst 0) = Inr s0 \<and>
     run [OpSet (5::int) ''a'', OpGet 5, OpRemove 7, OpFront, OpLen, OpSetProbability (1 / 4),
          OpSet 2 ''b'', OpRemove 5, OpGet 5] s0 = Some (Inr (rs, s)) \<and>
     length rs = 9 \<and> wellformed s ns \<and> length (nxt s) = nat (maxLevel s)"
  using no_panic [where m = 18 and seed = "sconst 0" and
      cs = "[OpSet (5::int) ''a'', OpGet 5, OpRemove 7, OpFront, OpLen, OpSetProbability (1 / 4),
        OpSet 2 ''b'', OpRemove 5, OpGet 5]"]
  by auto

text \<open>
  C10, as the code has it. On a well-formed list that holds an element \<open>a\<close> with key
  \<open>k\<close>, \<^verbatim>\<open>Remove(k)\<close> returns \<open>a\<close>. The element \<open>a\<close> itself is as before: its key,
  its value and its forward pointers, so that \<^verbatim>\<open>Key()\<close> and \<^verbatim>\<open>Value()\<close> yield the
  stored pair and \<^verbatim>\<open>Next()\<close> the element that followed \<open>a\<close> in the list before the
  removal. Apart from pointer values, the list differs from the one before in the count,
  which is one less, and in the traversal cache, which holds the predecessors of \<open>k\<close>;
  the only forward pointers that may differ are those of the level-\<open>j\<close> predecessor at
  level \<open>j\<close>, for \<open>j\<close> below the height of \<open>a\<close>.
\<close>

theorem Remove_found_frame:
  fixes s :: "('k::linorder, 'v) SkipList"
  assumes wf: "wellformed s ns" and a: "a \<in> set ns" "key (heap s ! a) = k"
  shows "\<exists>s'. Remove k s = Some (Inr (Some a, s')) \<and>
     heap s' ! a = heap s ! a \<and>
     Key (heap s') (Some a) = Inr k \<and> Value (heap s') (Some a) = Inr (val (heap s ! a)) \<and>
     Next (heap s') (Some a) = Inr (successor ns a) \<and>
     Next (heap s) (Some a) = Inr (successor ns a) \<and>
     skeleton s' = skeleton (s\<lparr>prevNodesCache := preds s k ns, Length := Length s - 1\<rparr>) \<and>
     (\<forall>p j. valid_ptr s p \<longrightarrow>
        \<not> (j < length (nxt (heap s ! a)) \<and> p = pred_at (heap s) k j ns) \<longrightarrow>
        nxt_of s' p ! j = nxt_of s p ! j)"
proof -
  have "lookup (heap s) (key (heap s ! a)) ns = Some a"
    by (rule lookup_unique [OF wf_sorted [OF wf] a(1)])
  then have found: "lookup (heap s) k ns = Some a" using a(2) by simp
  from Remove_found_correct [OF wf found] obtain s' where
    s': "Remove k s = Some (Inr (Some a, s'))"
      "skeleton s' = skeleton (s\<lparr>prevNodesCache := preds s k ns, Length := Length s - 1\<rparr>)"
      "heap s' ! a = heap s ! a"
      "\<forall>p j. valid_ptr s p \<longrightarrow> \<not> (j < length (nxt (heap s ! a)) \<and> p = pred_at (heap s) k j ns) \<longrightarrow>
          nxt_of s' p ! j = nxt_of s p ! j"
    by blast
  have al: "a < length (heap s)" using wf_valid [OF wf a(1)] .
  have len: "length (heap s') = length (heap s)" using skeleton_fields(8) [OF s'(2)] by simp
  have nx: "Next (heap s) (Some a) = Inr (successor ns a)" by (rule Next_in_list [OF wf a(1)])
  have nx': "Next (heap s') (Some a) = Next (heap s) (Some a)"
    using al len s'(3) by (simp add: Next_def elem_at_def)
  have kv: "Key (heap s') (Some a) = Inr k" "Value (heap s') (Some a) = Inr (val (heap s ! a))"
    using al len s'(3) a(2) by (simp_all add: Key_def Value_def elem_at_def)
  show ?thesis
    apply (rule exI [of _ s'])
    using s' nx nx' kv by simp
qed

theorem Remove_found_frame_witness:
  "\<exists>s'. Remove 5 example_list = Some (Inr (Some 0, s')) \<and>
     heap s' ! 0 = \<lparr>nxt = [Some 2, Some 2], key = 5, val = ''z''\<rparr> \<and>
     Key (heap s') (Some 0) = Inr 5 \<and> Value (heap s') (Some 0) = Inr ''z'' \<and>
     Next (heap s') (Some 0) = Inr (Some 2)"
proof -
  have h: "0 \<in> set [1, 0, 2::nat]" "key (heap example_list ! 0) = 5"
    "heap example_list ! 0 = \<lparr>nxt = [Some 2, Some 2], key = 5, val = ''z''\<rparr>"
    "successor [1, 0, 2] 0 = Some 2"
    by (simp_all add: example_list_def successor_def)
  from Remove_found_frame [OF example_wellformed h(1,2)] obtain s' where
    "Remove 5 example_list = Some (Inr (Some 0, s'))" "heap s' ! 0 = heap example_list ! 0"
    "Key (heap s') (Some 0) = Inr 5" "Value (heap s') (Some 0) = Inr (val (heap example_list ! 0))"
    "Next (heap s') (Some 0) = Inr (successor [1, 0, 2] 0)"
    by blast
  then show ?thesis using h(3,4) by (intro exI [of _ s']) simp
qed

text \<open>
  C10, as the claim states it, fails on the traversal cache: \<^verbatim>\<open>Remove\<close> searches with
  \<^verbatim>\<open>getPrevElementNodes\<close>, which rewrites \<^verbatim>\<open>list.prevNodesCache\<close>. On the list
  left by \<^verbatim>\<open>Set(1, "a"); Set(2, "b")\<close> on a fresh list of \<open>maxLevel\<close> 1 the cache holds
  the element of key 1; after \<^verbatim>\<open>Remove(1)\<close> it holds the header.
\<close>

theorem Remove_rewrites_cache_counterexample:
  "Remove 1 two_list
     = Some (Inr (Some 0, two_list\<lparr>nxt := [Some 1], Length := 1, prevNodesCache := [Some Header]\<rparr>)) \<and>
   prevNodesCache two_list = [Some (Elem 0)] \<and>
   prevNodesCache (two_list\<lparr>nxt := [Some 1], Length := 1, prevNodesCache := [Some Header]\<rparr>)
     = [Some Header]"
  by (simp add: two_list_def eval_simps)

end
